theory Spec2Isabelle
  imports Main
begin

section \<open>Nodes of the two documents\<close>

text \<open>
  \<^verbatim>\<open>src/index.ts\<close> mirrors the nodes of a detached parse document into a live target.
  Both documents hold DOM nodes; the fields the code reads are the node type, the tag
  name, the attributes and the character data.
\<close>

datatype kind = ELEMENT_NODE | TEXT_NODE | COMMENT_NODE | FRAGMENT_NODE

record node =
  nodeType :: kind
  tagName :: string
  attrs :: "(string \<times> string) list"
  data :: string

text \<open>A reference to a node: \<open>PNode i\<close> is the node the parser created as number \<open>i\<close>,
  \<open>LNode l\<close> the node number \<open>l\<close> created in the live document.\<close>

datatype nref = PNode nat | LNode nat

text \<open>
  A node of the parse document. \<open>parentNode\<close> is the parser's parent; \<open>host\<close> is set once
  \<^verbatim>\<open>appendChild(pendingText)\<close> has carried the node over into the live document (the DOM
  adopts a node appended to a parent of another document, removing it from its old parent).
\<close>

record pnode = node +
  parentNode :: nat
  host :: "nat option"

datatype handler = Resume | RemoveSelf

record lnode = node +
  lparent :: "nat option"
  kids :: "nref list"
  onload :: "handler option"

subsection \<open>Reflected properties\<close>

definition getAttribute :: "'a node_scheme \<Rightarrow> string \<Rightarrow> string option" where
  "getAttribute n a = map_of (attrs n) a"

definition hasAttribute :: "'a node_scheme \<Rightarrow> string \<Rightarrow> bool" where
  "hasAttribute n a = (getAttribute n a \<noteq> None)"

text \<open>A string property reflecting an attribute: the value, or the empty string. URL
  properties (\<^verbatim>\<open>src\<close>, \<^verbatim>\<open>href\<close>) are taken unresolved.\<close>

definition attr :: "'a node_scheme \<Rightarrow> string \<Rightarrow> string" where
  "attr n a = (case getAttribute n a of None \<Rightarrow> [] | Some v \<Rightarrow> v)"

definition isScript :: "'a node_scheme \<Rightarrow> bool" where
  "isScript n = (nodeType n = ELEMENT_NODE \<and> tagName n = ''SCRIPT'')"

text \<open>\<^verbatim>\<open>matchMedia(media).matches\<close>: the environment is the list of media queries that match.\<close>

definition mediaOk :: "string list \<Rightarrow> 'a node_scheme \<Rightarrow> bool" where
  "mediaOk mm n = (attr n ''media'' = [] \<or> attr n ''media'' \<in> set mm)"

definition isBlocking :: "string list \<Rightarrow> 'a node_scheme \<Rightarrow> bool" where
  "isBlocking mm n =
     (nodeType n = ELEMENT_NODE \<and>
      ((tagName n = ''SCRIPT'' \<and> attr n ''src'' \<noteq> [] \<and>
        \<not> (hasAttribute n ''nomodule'' \<or> attr n ''type'' = ''module'' \<or>
           hasAttribute n ''async'' \<or> hasAttribute n ''defer'')) \<or>
       (tagName n = ''LINK'' \<and> attr n ''rel'' = ''stylesheet'' \<and> mediaOk mm n)))"

definition isInlineHost :: "'a node_scheme \<Rightarrow> bool" where
  "isInlineHost n =
     ((tagName n = ''SCRIPT'' \<and> attr n ''src'' = []) \<or> tagName n = ''STYLE'')"

text \<open>The attributes \<^verbatim>\<open>getPreloadLink\<close> puts on the link it creates, or \<open>None\<close> when it
  returns \<^verbatim>\<open>undefined\<close>.\<close>

definition copyIntegrity :: "'a node_scheme \<Rightarrow> (string \<times> string) list" where
  "copyIntegrity n =
     (if attr n ''integrity'' \<noteq> [] then [(''integrity'', attr n ''integrity'')] else []) @
     (if attr n ''crossorigin'' \<noteq> [] then [(''crossorigin'', attr n ''crossorigin'')] else [])"

definition getPreloadLink :: "string list \<Rightarrow> 'a node_scheme \<Rightarrow> (string \<times> string) list option" where
  "getPreloadLink mm n =
     (if nodeType n = ELEMENT_NODE then
        (if tagName n = ''SCRIPT'' then
           (if attr n ''src'' \<noteq> [] \<and> \<not> hasAttribute n ''nomodule'' then
              Some ((''href'', attr n ''src'') #
                (if getAttribute n ''type'' = Some ''module''
                 then [(''rel'', ''modulepreload'')]
                 else [(''rel'', ''preload''), (''as'', ''script'')]) @ copyIntegrity n)
            else None)
         else if tagName n = ''LINK'' then
           (if attr n ''rel'' = ''stylesheet'' \<and> mediaOk mm n then
              Some ([(''href'', attr n ''href''), (''rel'', ''preload''), (''as'', ''style'')]
                @ copyIntegrity n)
            else None)
         else if tagName n = ''IMG'' then
           Some ([(''rel'', ''preload''), (''as'', ''image'')] @
             (if attr n ''srcset'' \<noteq> []
              then [(''imagesrcset'', attr n ''srcset''), (''imagesizes'', attr n ''sizes'')]
              else [(''href'', attr n ''src'')]) @ copyIntegrity n)
         else None)
      else None)"

section \<open>The parse document\<close>

text \<open>
  \<^verbatim>\<open>doc.write(chunk)\<close> feeds the browser's HTML parser, which is not code of this
  repository. It is modelled at the level of its tree builder: a chunk is a list of
  tokens, an element is created as the last child of the current open element, character
  data is appended to a text node that is the last child of the current element, and void
  elements are not left open. The nodes are numbered in creation order, which is document
  order; node \<open>0\<close> is the content fragment of the \<^verbatim>\<open><template>\<close> written by the constructor.
\<close>

datatype token = StartTag string "(string \<times> string) list" | EndTag | Characters string
  | CommentTok string

datatype desc = Native | Getter nat

datatype completion = NotClosed | Pending | Resolved

record escript =
  source :: nat
  scriptText :: string
  saved :: "desc option"

datatype error = TypeError | Diverges

record state =
  arena :: "pnode list"
  openElems :: "nat list"
  live :: "lnode list"
  nextSibling :: "nat option"
  targetNodes :: "(nat \<times> nat) list"
  currentNode :: nat
  pendingText :: "nat option"
  scanNode :: "nref option"
  resolve :: bool
  isBlocked :: bool
  inlineHostNode :: "nat option"
  completion :: completion
  mediaMatches :: "string list"
  currentScript :: "desc option"
  unreframedBody :: "escript list"
  console :: "string list"

definition voidTags :: "string list" where
  "voidTags = [''AREA'', ''BASE'', ''BR'', ''COL'', ''EMBED'', ''HR'', ''IMG'', ''INPUT'',
     ''LINK'', ''META'', ''SOURCE'', ''TRACK'', ''WBR'']"

text \<open>The parser's own state: the nodes created so far and the stack of open elements.\<close>

type_synonym parser = "pnode list \<times> nat list"

definition current :: "nat list \<Rightarrow> nat" where
  "current os = (case os of [] \<Rightarrow> 0 | x # _ \<Rightarrow> x)"

definition mkNode :: "kind \<Rightarrow> string \<Rightarrow> (string \<times> string) list \<Rightarrow> string \<Rightarrow> nat \<Rightarrow> pnode" where
  "mkNode k t a d p =
     \<lparr>nodeType = k, tagName = t, attrs = a, data = d, parentNode = p, host = None\<rparr>"

definition openText :: "parser \<Rightarrow> bool" where
  "openText P =
     (fst P \<noteq> [] \<and> nodeType (last (fst P)) = TEXT_NODE \<and>
      parentNode (last (fst P)) = current (snd P) \<and> host (last (fst P)) = None)"

fun feed :: "parser \<Rightarrow> token \<Rightarrow> parser" where
  "feed (A, os) (StartTag t a) =
     (A @ [mkNode ELEMENT_NODE t a [] (current os)],
      (if t \<in> set voidTags then os else length A # os))"
| "feed (A, os) EndTag = (A, if length os > 1 then tl os else os)"
| "feed (A, os) (Characters d) =
     (if d = [] then (A, os)
      else if openText (A, os) then
        (A[length A - 1 := (last A)\<lparr>data := data (last A) @ d\<rparr>], os)
      else (A @ [mkNode TEXT_NODE [] [] d (current os)], os))"
| "feed (A, os) (CommentTok d) = (A @ [mkNode COMMENT_NODE [] [] d (current os)], os)"

definition parse :: "token list \<Rightarrow> parser \<Rightarrow> parser" where
  "parse chunk P = foldl feed P chunk"

definition doc_write :: "token list \<Rightarrow> state \<Rightarrow> state" where
  "doc_write chunk s =
     (case parse chunk (arena s, openElems s) of (A, os) \<Rightarrow> s\<lparr>arena := A, openElems := os\<rparr>)"

section \<open>The live document\<close>

text \<open>The target is live node \<open>0\<close>. \<^verbatim>\<open>parent.insertBefore(c, ref)\<close> with \<open>ref = null\<close>
  appends; the insertion point \<^verbatim>\<open>nextSibling\<close> stays a child of the target, since
  nothing here removes it.\<close>

definition setParent :: "nref \<Rightarrow> nat \<Rightarrow> lnode list \<Rightarrow> lnode list" where
  "setParent c p L = (case c of LNode l \<Rightarrow> L[l := (L ! l)\<lparr>lparent := Some p\<rparr>] | PNode _ \<Rightarrow> L)"

definition insertBefore :: "nat \<Rightarrow> nref \<Rightarrow> nat option \<Rightarrow> lnode list \<Rightarrow> lnode list" where
  "insertBefore p c ref L =
     setParent c p (L[p := (L ! p)\<lparr>kids :=
       (case ref of None \<Rightarrow> kids (L ! p) @ [c]
        | Some r \<Rightarrow> takeWhile (\<lambda>x. x \<noteq> LNode r) (kids (L ! p)) @ c #
            dropWhile (\<lambda>x. x \<noteq> LNode r) (kids (L ! p)))\<rparr>])"

definition appendChild :: "nat \<Rightarrow> nref \<Rightarrow> lnode list \<Rightarrow> lnode list" where
  "appendChild p c L = insertBefore p c None L"

definition detach :: "nref \<Rightarrow> nat option \<Rightarrow> lnode list \<Rightarrow> lnode list" where
  "detach c par L =
     (case par of None \<Rightarrow> L
      | Some p \<Rightarrow> L[p := (L ! p)\<lparr>kids := removeAll c (kids (L ! p))\<rparr>])"

definition remove :: "nat \<Rightarrow> lnode list \<Rightarrow> lnode list" where
  "remove l L =
     (let L' = detach (LNode l) (lparent (L ! l)) L in L'[l := (L' ! l)\<lparr>lparent := None\<rparr>])"

definition importNode :: "'a node_scheme \<Rightarrow> lnode" where
  "importNode n =
     \<lparr>nodeType = nodeType n, tagName = tagName n, attrs = attrs n, data = data n,
      lparent = None, kids = [], onload = None\<rparr>"

definition info :: "state \<Rightarrow> nref \<Rightarrow> node" where
  "info s r = (case r of PNode i \<Rightarrow> node.truncate (arena s ! i)
                | LNode l \<Rightarrow> node.truncate (live s ! l))"

section \<open>Script evaluation\<close>

text \<open>\<^verbatim>\<open>assert\<close> wraps \<^verbatim>\<open>console.assert\<close>, which writes the message to the console when the
  value is false and returns.\<close>

definition assert :: "bool \<Rightarrow> string \<Rightarrow> state \<Rightarrow> state" where
  "assert v msg s = (if v then s else s\<lparr>console := console s @ [msg]\<rparr>)"

definition textOf :: "state \<Rightarrow> nref \<Rightarrow> string" where
  "textOf s r = (if nodeType (info s r) = TEXT_NODE then data (info s r) else [])"

text \<open>
  \<^verbatim>\<open>evalScript\<close>: the deep clone appended to \<^verbatim>\<open>scriptLoadingDocument.unreframedBody\<close> is
  recorded with the element it was made from, its text at that moment and the descriptor
  its two listeners restore (\<open>None\<close>: no listener was added). \<open>currentScript\<close> is the own
  property descriptor of the document prototype.
\<close>

definition evalScript :: "nat \<Rightarrow> state \<Rightarrow> state" where
  "evalScript h s =
     (let el = live s ! h;
          txt = concat (map (textOf s) (kids el));
          classic = (attr el ''type'' \<noteq> ''module'' \<and> attr el ''src'' = []);
          orig = (if classic then currentScript s else None);
          s1 = (if classic
                then (assert (orig \<noteq> None) ''document.currentScript is undefined!'' s)
                       \<lparr>currentScript := Some (Getter h)\<rparr>
                else s)
      in s1\<lparr>unreframedBody := unreframedBody s1 @
            [\<lparr>source = h, scriptText = txt, saved = orig\<rparr>]\<rparr>)"

text \<open>A load or error event on the \<open>i\<close>-th evaluated clone runs \<^verbatim>\<open>restoreCurrentScript\<close>
  when it was registered.\<close>

definition evalDone :: "nat \<Rightarrow> state \<Rightarrow> state" where
  "evalDone i s =
     (if i < length (unreframedBody s) then
        (case saved (unreframedBody s ! i) of
           None \<Rightarrow> s
         | Some d \<Rightarrow> s\<lparr>currentScript := Some d\<rparr>)
      else s)"

text \<open>
  \<^verbatim>\<open>appendInlineTextIfNeeded\<close> appends the parse document's own text node to the live
  host, which moves it there. The type attribute of a script host is set to an inert value
  around the call and put back, which leaves the attributes as they were.
\<close>

definition adopt :: "nat \<Rightarrow> nat \<Rightarrow> state \<Rightarrow> state" where
  "adopt t h s =
     (let L = detach (PNode t) (host (arena s ! t)) (live s)
      in s\<lparr>live := appendChild h (PNode t) L,
           arena := (arena s)[t := (arena s ! t)\<lparr>host := Some h\<rparr>]\<rparr>)"

definition appendInlineTextIfNeeded :: "nat option \<Rightarrow> nat option \<Rightarrow> state \<Rightarrow> state" where
  "appendInlineTextIfNeeded pt ih s =
     (case pt of None \<Rightarrow> s
      | Some t \<Rightarrow> (case ih of None \<Rightarrow> s | Some h \<Rightarrow> adopt t h s))"

section \<open>The tree walker\<close>

text \<open>
  \<^verbatim>\<open>walker.nextNode()\<close> from a node inside the parse document is the next node in
  document order that is still there.
\<close>

definition next_parse :: "state \<Rightarrow> nat \<Rightarrow> nat option" where
  "next_parse s i = List.find (\<lambda>j. host (arena s ! j) = None) [Suc i ..< length (arena s)]"

definition inParse :: "state \<Rightarrow> nref \<Rightarrow> bool" where
  "inParse s r = (case r of PNode i \<Rightarrow> host (arena s ! i) = None | LNode _ \<Rightarrow> False)"

text \<open>
  From a node that has been moved into the live document the walker follows that
  document: first child, else the next sibling of the node or of its nearest ancestor that
  has one. It never meets its root there and returns \<^verbatim>\<open>null\<close> at the end of the tree.
\<close>

definition parentOf :: "state \<Rightarrow> nref \<Rightarrow> nat option" where
  "parentOf s r = (case r of PNode t \<Rightarrow> host (arena s ! t) | LNode l \<Rightarrow> lparent (live s ! l))"

fun after :: "'a \<Rightarrow> 'a list \<Rightarrow> 'a option" where
  "after x [] = None"
| "after x (y # ys) = (if x = y then (case ys of [] \<Rightarrow> None | z # _ \<Rightarrow> Some z) else after x ys)"

fun climb :: "nat \<Rightarrow> state \<Rightarrow> nref \<Rightarrow> nref option" where
  "climb 0 s r = None"
| "climb (Suc k) s r =
     (case parentOf s r of None \<Rightarrow> None
      | Some p \<Rightarrow> (case after r (kids (live s ! p)) of
                    Some x \<Rightarrow> Some x
                  | None \<Rightarrow> climb k s (LNode p)))"

definition live_next :: "state \<Rightarrow> nref \<Rightarrow> nref option" where
  "live_next s r =
     (case (case r of LNode l \<Rightarrow> kids (live s ! l) | PNode _ \<Rightarrow> []) of
        c # _ \<Rightarrow> Some c
      | [] \<Rightarrow> climb (Suc (length (live s))) s r)"

section \<open>Preloading while blocked\<close>

definition preload :: "node \<Rightarrow> state \<Rightarrow> state" where
  "preload n s =
     (case getPreloadLink (mediaMatches s) n of
        None \<Rightarrow> s
      | Some a \<Rightarrow>
          s\<lparr>live := insertBefore 0 (LNode (length (live s))) (nextSibling s)
            (live s @ [\<lparr>nodeType = ELEMENT_NODE, tagName = ''LINK'', attrs = a, data = [],
               lparent = None, kids = [], onload = Some RemoveSelf\<rparr>])\<rparr>)"

lemma next_parse_bounds: "next_parse s i = Some j \<Longrightarrow> i < j \<and> j < length (arena s)"
  unfolding next_parse_def by (auto simp: find_Some_iff)

lemma arena_preload: "arena (preload n s) = arena s"
  by (simp add: preload_def split: option.splits)

function scan_parse :: "nat \<Rightarrow> state \<Rightarrow> state" where
  "scan_parse i s =
     (case next_parse s i of
        None \<Rightarrow> s
      | Some j \<Rightarrow> scan_parse j (preload (info s (PNode j)) (s\<lparr>scanNode := Some (PNode j)\<rparr>)))"
  by pat_completeness auto
termination
proof (relation "measure (\<lambda>(i, s). length (arena s) - i)")
  show "wf (measure (\<lambda>(i, s). length (arena s) - i))" by simp
next
  fix i s j
  assume "next_parse s i = Some j"
  then have "i < j \<and> j < length (arena s)" by (rule next_parse_bounds)
  then show "((j, preload (info s (PNode j)) (s\<lparr>scanNode := Some (PNode j)\<rparr>)), (i, s))
      \<in> measure (\<lambda>(i, s). length (arena s) - i)"
    by (auto simp: arena_preload)
qed

text \<open>The scan through the live document is bounded by a number of steps.\<close>

fun scan_live :: "nat \<Rightarrow> nref \<Rightarrow> state \<Rightarrow> error + state" where
  "scan_live 0 r s = Inl Diverges"
| "scan_live (Suc k) r s =
     (case live_next s r of
        None \<Rightarrow> Inr s
      | Some x \<Rightarrow> scan_live k x (preload (info s x) (s\<lparr>scanNode := Some x\<rparr>)))"

text \<open>The blocked branch of \<^verbatim>\<open>walk\<close>. The walker's current node is put back to the blocked
  node at the end, so it is left untouched here.\<close>

definition scanStart :: "state \<Rightarrow> nref" where
  "scanStart s = (case scanNode s of Some r \<Rightarrow> r | None \<Rightarrow> PNode (currentNode s))"

fun idx :: "nref \<Rightarrow> nat" where
  "idx (PNode i) = i"
| "idx (LNode l) = l"

definition lookahead :: "state \<Rightarrow> error + state" where
  "lookahead s =
     (if inParse s (scanStart s) then Inr (scan_parse (idx (scanStart s)) s)
      else scan_live (2 * length (live s) + 2) (scanStart s) s)"

declare scan_parse.simps [simp del] scan_live.simps [simp del]

lemma scan_parse_frame:
  "scan_parse i s = s\<lparr>live := live (scan_parse i s), scanNode := scanNode (scan_parse i s)\<rparr>"
proof (induction i s rule: scan_parse.induct)
  case (1 i s)
  show ?case
  proof (cases "next_parse s i")
    case None
    then show ?thesis by (simp add: scan_parse.simps)
  next
    case (Some j)
    let ?s1 = "preload (info s (PNode j)) (s\<lparr>scanNode := Some (PNode j)\<rparr>)"
    have e: "scan_parse i s = scan_parse j ?s1" using Some by (simp add: scan_parse.simps)
    have f: "?s1 = s\<lparr>live := live ?s1, scanNode := scanNode ?s1\<rparr>"
      by (simp add: preload_def split: option.splits)
    from "1.IH" [OF Some] have "scan_parse j ?s1 =
       ?s1\<lparr>live := live (scan_parse j ?s1), scanNode := scanNode (scan_parse j ?s1)\<rparr>" .
    then have "scan_parse j ?s1 =
       s\<lparr>live := live (scan_parse j ?s1), scanNode := scanNode (scan_parse j ?s1)\<rparr>"
      by (subst (asm) (2) f) simp
    then show ?thesis by (simp only: e)
  qed
qed

lemma scan_live_frame:
  "scan_live k r s = Inr s' \<Longrightarrow> s' = s\<lparr>live := live s', scanNode := scanNode s'\<rparr>"
proof (induction k r s rule: scan_live.induct)
  case (1 r s)
  then show ?case by (simp add: scan_live.simps)
next
  case (2 k r s)
  show ?case
  proof (cases "live_next s r")
    case None
    with 2 show ?thesis by (simp add: scan_live.simps)
  next
    case (Some x)
    let ?s1 = "preload (info s x) (s\<lparr>scanNode := Some x\<rparr>)"
    have f: "?s1 = s\<lparr>live := live ?s1, scanNode := scanNode ?s1\<rparr>"
      by (simp add: preload_def split: option.splits)
    from 2 Some have "scan_live k x ?s1 = Inr s'" by (simp add: scan_live.simps)
    from "2.IH" [OF Some this] have "s' = ?s1\<lparr>live := live s', scanNode := scanNode s'\<rparr>" .
    then show ?thesis by (subst (asm) f) simp
  qed
qed

text \<open>The lookahead changes nothing of the session but the live document and its own
  cursor.\<close>

lemma lookahead_frame:
  assumes "lookahead s = Inr s'"
  shows "s' = s\<lparr>live := live s', scanNode := scanNode s'\<rparr>"
proof (cases "inParse s (scanStart s)")
  case True
  with assms have "s' = scan_parse (idx (scanStart s)) s" by (simp add: lookahead_def)
  then show ?thesis using scan_parse_frame by simp
next
  case False
  with assms have "scan_live (2 * length (live s) + 2) (scanStart s) s = Inr s'"
    by (simp add: lookahead_def)
  then show ?thesis by (rule scan_live_frame)
qed

section \<open>Mirroring\<close>

text \<open>
  The body of the loop of the unblocked branch of \<^verbatim>\<open>walk\<close>, for the parse node \<open>j\<close>
  that \<^verbatim>\<open>walker.nextNode()\<close> returned, in the order of the source: the clone (it gets the
  next number of the live document), the pending text and the blocked flag with the
  resume handler (\<open>visit\<close>); the live parent and the entry in \<^verbatim>\<open>targetNodes\<close>; then either
  the parent becomes the inline host, or the previous pending text is flushed into the
  inline host, the host is evaluated if it is a script (\<open>flushInline\<close>, which \<^verbatim>\<open>close\<close>
  does as well), and the clone is inserted and, if it is a script that is not an inline
  host, evaluated (\<open>place\<close>). When the parent has no live counterpart,
  \<^verbatim>\<open>isInlineHost(undefined)\<close> throws. The type attribute of a script clone is set to an
  inert value around the insertion and put back, which leaves the attributes as they
  were.
\<close>

definition blocks :: "state \<Rightarrow> nat \<Rightarrow> bool" where
  "blocks s j = (nodeType (arena s ! j) \<noteq> TEXT_NODE \<and>
     isBlocking (mediaMatches s) (importNode (arena s ! j)))"

definition cloneOf :: "state \<Rightarrow> nat \<Rightarrow> lnode" where
  "cloneOf s j = (importNode (arena s ! j))\<lparr>onload := (if blocks s j then Some Resume else None)\<rparr>"

definition visit :: "nat \<Rightarrow> state \<Rightarrow> state" where
  "visit j s =
     s\<lparr>currentNode := j,
       live := live s @ [cloneOf s j],
       pendingText := (if nodeType (arena s ! j) = TEXT_NODE then Some j else None),
       isBlocked := (blocks s j \<or> isBlocked s)\<rparr>"

definition flushInline :: "nat option \<Rightarrow> state \<Rightarrow> state" where
  "flushInline prev s =
     (let s3 = appendInlineTextIfNeeded prev (inlineHostNode s) s
      in case inlineHostNode s3 of
           None \<Rightarrow> s3
         | Some h \<Rightarrow> if isScript (live s3 ! h) then evalScript h s3 else s3)"

definition place :: "nat \<Rightarrow> nat \<Rightarrow> state \<Rightarrow> state" where
  "place p c s =
     (let s6 = s\<lparr>live := (if p = 0 then insertBefore 0 (LNode c) (nextSibling s) (live s)
                            else appendChild p (LNode c) (live s))\<rparr>
      in if isScript (live s ! c) \<and> \<not> isInlineHost (live s ! c) then evalScript c s6 else s6)"

definition mirror :: "nat \<Rightarrow> state \<Rightarrow> error + state" where
  "mirror j s =
     (case map_of (targetNodes s) (parentNode (arena s ! j)) of
        None \<Rightarrow> Inl TypeError
      | Some p \<Rightarrow>
          (let s2 = (visit j s)\<lparr>targetNodes := (j, length (live s)) # targetNodes s\<rparr>
           in if isInlineHost (live s2 ! p) then Inr (s2\<lparr>inlineHostNode := Some p\<rparr>)
              else Inr (place p (length (live s))
                         ((flushInline (pendingText s) s2)\<lparr>inlineHostNode := None\<rparr>))))"

definition finish :: "state \<Rightarrow> state" where
  "finish s = (if resolve s then s\<lparr>completion := Resolved\<rparr> else s)"

lemma arena_evalScript: "arena (evalScript h s) = arena s"
  by (simp add: evalScript_def assert_def Let_def)

lemma currentNode_evalScript: "currentNode (evalScript h s) = currentNode s"
  by (simp add: evalScript_def assert_def Let_def)

lemma length_arena_append: "length (arena (appendInlineTextIfNeeded a b s)) = length (arena s)"
  by (simp add: appendInlineTextIfNeeded_def adopt_def Let_def split: option.splits)

lemma currentNode_append: "currentNode (appendInlineTextIfNeeded a b s) = currentNode s"
  by (simp add: appendInlineTextIfNeeded_def adopt_def Let_def split: option.splits)

lemma flushInline_measure:
  "length (arena (flushInline a s)) = length (arena s) \<and>
   currentNode (flushInline a s) = currentNode s"
  by (simp add: flushInline_def Let_def arena_evalScript currentNode_evalScript
      length_arena_append currentNode_append split: option.splits)

lemma place_measure:
  "length (arena (place p c s)) = length (arena s) \<and> currentNode (place p c s) = currentNode s"
  by (simp add: place_def Let_def arena_evalScript currentNode_evalScript)

lemma mirror_measure:
  assumes "mirror j s = Inr s'"
  shows "length (arena s') = length (arena s) \<and> currentNode s' = j"
proof (cases "map_of (targetNodes s) (parentNode (arena s ! j))")
  case None
  with assms show ?thesis by (simp add: mirror_def)
next
  case (Some p)
  let ?s2 = "(visit j s)\<lparr>targetNodes := (j, length (live s)) # targetNodes s\<rparr>"
  have v: "length (arena ?s2) = length (arena s) \<and> currentNode ?s2 = j"
    by (simp add: visit_def)
  from assms Some have "s' = ?s2\<lparr>inlineHostNode := Some p\<rparr> \<or>
      s' = place p (length (live s)) ((flushInline (pendingText s) ?s2)\<lparr>inlineHostNode := None\<rparr>)"
    by (auto simp: mirror_def Let_def split: if_splits)
  then show ?thesis
  proof
    assume "s' = ?s2\<lparr>inlineHostNode := Some p\<rparr>"
    with v show ?thesis by simp
  next
    assume "s' = place p (length (live s)) ((flushInline (pendingText s) ?s2)\<lparr>inlineHostNode := None\<rparr>)"
    with v flushInline_measure [of "pendingText s" ?s2] show ?thesis
      by (simp add: place_measure)
  qed
qed

function walk_main :: "state \<Rightarrow> error + state" where
  "walk_main s =
     (if host (arena s ! currentNode s) \<noteq> None then
        (case live_next s (PNode (currentNode s)) of
           None \<Rightarrow> Inr (finish s)
         | Some x \<Rightarrow> Inl TypeError)
      else
        (case next_parse s (currentNode s) of
           None \<Rightarrow> Inr (finish s)
         | Some j \<Rightarrow>
             (case mirror j s of
                Inl e \<Rightarrow> Inl e
              | Inr s' \<Rightarrow> if isBlocked s' then lookahead s' else walk_main s')))"
  by pat_completeness auto
termination
proof (relation "measure (\<lambda>s. length (arena s) - currentNode s)")
  show "wf (measure (\<lambda>s. length (arena s) - currentNode s))" by simp
next
  fix s j s'
  assume a: "next_parse s (currentNode s) = Some j" and m: "mirror j s = Inr s'"
  from a have "currentNode s < j \<and> j < length (arena s)" by (rule next_parse_bounds)
  with mirror_measure [OF m]
  show "(s', s) \<in> measure (\<lambda>s. length (arena s) - currentNode s)" by auto
qed

declare walk_main.simps [simp del]

definition walk :: "state \<Rightarrow> error + state" where
  "walk s = (if isBlocked s then lookahead s else walk_main s)"

section \<open>The session\<close>

text \<open>\<^verbatim>\<open>write\<close>: after \<^verbatim>\<open>doc.write(chunk)\<close>, the data of a pending text that is not held
  for an inline host is copied to its live counterpart (\<open>syncText\<close>); then the walk.\<close>

definition syncText :: "state \<Rightarrow> error + state" where
  "syncText s =
     (case pendingText s of
        None \<Rightarrow> Inr s
      | Some t \<Rightarrow>
          (if inlineHostNode s \<noteq> None then Inr s
           else (case map_of (targetNodes s) t of
                   None \<Rightarrow> Inl TypeError
                 | Some c \<Rightarrow>
                     Inr (s\<lparr>live := (live s)[c := (live s ! c)\<lparr>data := data (arena s ! t)\<rparr>]\<rparr>))))"

definition writeChunk :: "token list \<Rightarrow> state \<Rightarrow> error + state" where
  "writeChunk chunk s =
     (case syncText (doc_write chunk s) of Inl e \<Rightarrow> Inl e | Inr s1 \<Rightarrow> walk s1)"

definition abort :: "state \<Rightarrow> error + state" where
  "abort s =
     (if isBlocked s then
        (case map_of (targetNodes s) (currentNode s) of
           None \<Rightarrow> Inl TypeError
         | Some c \<Rightarrow> Inr (s\<lparr>live := remove c (live s)\<rparr>))
      else Inr s)"

text \<open>\<^verbatim>\<open>close\<close> returns a promise: \<open>completion\<close> says whether it is resolved.\<close>

definition close :: "state \<Rightarrow> state" where
  "close s =
     (let s2 = flushInline (pendingText s) s
      in if isBlocked s2 then s2\<lparr>resolve := True, completion := Pending\<rparr>
         else s2\<lparr>completion := Resolved\<rparr>)"

text \<open>A load or error event on the live node \<open>l\<close>: the handler the walk put on a blocking
  clone resumes the walk, the one on a preload link removes the link.\<close>

definition fire :: "nat \<Rightarrow> state \<Rightarrow> error + state" where
  "fire l s =
     (case onload (live s ! l) of
        None \<Rightarrow> Inr s
      | Some RemoveSelf \<Rightarrow> Inr (s\<lparr>live := remove l (live s)\<rparr>)
      | Some Resume \<Rightarrow>
          (let s1 = s\<lparr>isBlocked := False\<rparr>
           in if lparent (live s1 ! l) \<noteq> None then walk s1 else Inr s1))"

datatype event = Write "token list" | Abort | Close | Fire nat | EvalFire nat

fun step :: "event \<Rightarrow> state \<Rightarrow> error + state" where
  "step (Write chunk) s = writeChunk chunk s"
| "step Abort s = abort s"
| "step Close s = Inr (close s)"
| "step (Fire l) s = fire l s"
| "step (EvalFire i) s = Inr (evalDone i s)"

fun run :: "event list \<Rightarrow> state \<Rightarrow> error + state" where
  "run [] s = Inr s"
| "run (e # es) s = (case step e s of Inl x \<Rightarrow> Inl x | Inr s' \<Rightarrow> run es s')"

text \<open>
  The constructor, for a target with \<open>nb\<close> children up to \<^verbatim>\<open>previousSibling\<close> and \<open>na\<close>
  children after it; \<open>nb = 0\<close> is a call without \<^verbatim>\<open>previousSibling\<close>, for which
  \<^verbatim>\<open>nextSibling\<close> is \<^verbatim>\<open>null\<close> whatever children the target has. The target is live node
  \<open>0\<close>, its children are \<open>1 .. nb + na\<close>. The parse document holds the content fragment
  of the template, mapped to the target.
\<close>

definition elem :: "string \<Rightarrow> nat option \<Rightarrow> nref list \<Rightarrow> lnode" where
  "elem t p ks = \<lparr>nodeType = ELEMENT_NODE, tagName = t, attrs = [], data = [],
     lparent = p, kids = ks, onload = None\<rparr>"

definition writableDOM :: "string \<Rightarrow> nat \<Rightarrow> nat \<Rightarrow> string list \<Rightarrow> desc option \<Rightarrow> state" where
  "writableDOM ttag nb na mm cs =
     \<lparr>arena = [mkNode FRAGMENT_NODE [] [] [] 0],
      openElems = [0],
      live = elem ttag None (map LNode [1 ..< Suc (nb + na)]) #
             map (\<lambda>i. elem ''DIV'' (Some 0) []) [1 ..< Suc (nb + na)],
      nextSibling = (if nb = 0 \<or> na = 0 then None else Some (Suc nb)),
      targetNodes = [(0, 0)],
      currentNode = 0,
      pendingText = None,
      scanNode = None,
      resolve = False,
      isBlocked = False,
      inlineHostNode = None,
      completion = NotClosed,
      mediaMatches = mm,
      currentScript = cs,
      unreframedBody = [],
      console = []\<rparr>"

section \<open>What each step leaves unchanged\<close>

lemma nth_upd: "xs[i := x] ! j = (if i = j \<and> i < length xs then x else xs ! j)"
  by (cases "i < length xs") (auto simp: nth_list_update list_update_beyond)

lemma evalScript_keeps:
  "resolve (evalScript h s) = resolve s \<and> completion (evalScript h s) = completion s \<and>
   scanNode (evalScript h s) = scanNode s \<and> isBlocked (evalScript h s) = isBlocked s \<and>
   live (evalScript h s) = live s \<and> targetNodes (evalScript h s) = targetNodes s \<and>
   pendingText (evalScript h s) = pendingText s \<and> inlineHostNode (evalScript h s) = inlineHostNode s \<and>
   openElems (evalScript h s) = openElems s \<and> nextSibling (evalScript h s) = nextSibling s \<and>
   mediaMatches (evalScript h s) = mediaMatches s \<and> arena (evalScript h s) = arena s \<and>
   currentNode (evalScript h s) = currentNode s"
  by (simp add: evalScript_def assert_def Let_def)

lemma append_keeps:
  "resolve (appendInlineTextIfNeeded a b s) = resolve s \<and>
   completion (appendInlineTextIfNeeded a b s) = completion s \<and>
   scanNode (appendInlineTextIfNeeded a b s) = scanNode s \<and>
   isBlocked (appendInlineTextIfNeeded a b s) = isBlocked s \<and>
   targetNodes (appendInlineTextIfNeeded a b s) = targetNodes s \<and>
   pendingText (appendInlineTextIfNeeded a b s) = pendingText s \<and>
   inlineHostNode (appendInlineTextIfNeeded a b s) = inlineHostNode s \<and>
   openElems (appendInlineTextIfNeeded a b s) = openElems s \<and>
   nextSibling (appendInlineTextIfNeeded a b s) = nextSibling s \<and>
   mediaMatches (appendInlineTextIfNeeded a b s) = mediaMatches s \<and>
   currentScript (appendInlineTextIfNeeded a b s) = currentScript s \<and>
   unreframedBody (appendInlineTextIfNeeded a b s) = unreframedBody s \<and>
   console (appendInlineTextIfNeeded a b s) = console s \<and>
   currentNode (appendInlineTextIfNeeded a b s) = currentNode s"
  by (simp add: appendInlineTextIfNeeded_def adopt_def Let_def split: option.splits)

lemma flushInline_keeps:
  "resolve (flushInline a s) = resolve s \<and> completion (flushInline a s) = completion s \<and>
   scanNode (flushInline a s) = scanNode s \<and> isBlocked (flushInline a s) = isBlocked s \<and>
   targetNodes (flushInline a s) = targetNodes s \<and> pendingText (flushInline a s) = pendingText s \<and>
   inlineHostNode (flushInline a s) = inlineHostNode s \<and> openElems (flushInline a s) = openElems s \<and>
   nextSibling (flushInline a s) = nextSibling s \<and> mediaMatches (flushInline a s) = mediaMatches s \<and>
   currentNode (flushInline a s) = currentNode s"
  by (simp add: flushInline_def Let_def evalScript_keeps append_keeps split: option.splits)

lemma place_keeps:
  "resolve (place p c s) = resolve s \<and> completion (place p c s) = completion s \<and>
   scanNode (place p c s) = scanNode s \<and> isBlocked (place p c s) = isBlocked s \<and>
   targetNodes (place p c s) = targetNodes s \<and> pendingText (place p c s) = pendingText s \<and>
   inlineHostNode (place p c s) = inlineHostNode s \<and> openElems (place p c s) = openElems s \<and>
   nextSibling (place p c s) = nextSibling s \<and> mediaMatches (place p c s) = mediaMatches s \<and>
   arena (place p c s) = arena s \<and> currentNode (place p c s) = currentNode s"
  by (simp add: place_def Let_def evalScript_keeps)

lemma mirror_cases:
  assumes "mirror j s = Inr s'"
  obtains p where "map_of (targetNodes s) (parentNode (arena s ! j)) = Some p"
    "isInlineHost ((live s @ [cloneOf s j]) ! p)"
    "s' = (visit j s)\<lparr>targetNodes := (j, length (live s)) # targetNodes s, inlineHostNode := Some p\<rparr>"
  | p where "map_of (targetNodes s) (parentNode (arena s ! j)) = Some p"
    "\<not> isInlineHost ((live s @ [cloneOf s j]) ! p)"
    "s' = place p (length (live s))
       ((flushInline (pendingText s) ((visit j s)\<lparr>targetNodes := (j, length (live s)) # targetNodes s\<rparr>))
          \<lparr>inlineHostNode := None\<rparr>)"
  using assms
  by (cases "map_of (targetNodes s) (parentNode (arena s ! j))")
     (auto simp: mirror_def Let_def visit_def split: if_splits)

lemma mirror_keeps:
  assumes "mirror j s = Inr s'"
  shows "resolve s' = resolve s \<and> completion s' = completion s \<and> scanNode s' = scanNode s \<and>
    openElems s' = openElems s \<and> nextSibling s' = nextSibling s \<and> mediaMatches s' = mediaMatches s \<and>
    targetNodes s' = (j, length (live s)) # targetNodes s \<and> currentNode s' = j \<and>
    pendingText s' = (if nodeType (arena s ! j) = TEXT_NODE then Some j else None) \<and>
    isBlocked s' = (blocks s j \<or> isBlocked s)"
  using assms
proof (cases rule: mirror_cases)
  case (1 p)
  then show ?thesis by (simp add: visit_def)
next
  case (2 p)
  then show ?thesis by (simp add: place_keeps flushInline_keeps) (simp add: visit_def)
qed

lemma lookahead_keeps:
  assumes "lookahead s = Inr s'"
  shows "isBlocked s' = isBlocked s \<and> completion s' = completion s \<and> resolve s' = resolve s \<and>
    targetNodes s' = targetNodes s \<and> currentNode s' = currentNode s \<and>
    pendingText s' = pendingText s \<and> inlineHostNode s' = inlineHostNode s \<and>
    arena s' = arena s \<and> openElems s' = openElems s \<and> nextSibling s' = nextSibling s \<and>
    mediaMatches s' = mediaMatches s \<and> currentScript s' = currentScript s \<and>
    unreframedBody s' = unreframedBody s \<and> console s' = console s"
proof -
  from lookahead_frame [OF assms]
  obtain L n where "s' = s\<lparr>live := L, scanNode := n\<rparr>" by blast
  then show ?thesis by simp
qed

lemma walk_main_completion:
  "\<not> isBlocked s \<Longrightarrow> resolve s \<Longrightarrow> walk_main s = Inr s' \<Longrightarrow>
   completion s' = (if isBlocked s' then completion s else Resolved)"
proof (induction s rule: walk_main.induct)
  case (1 s)
  show ?case
  proof (cases "host (arena s ! currentNode s) \<noteq> None")
    case True
    with "1.prems" have "s' = finish s"
      by (auto simp: walk_main.simps [of s] split: option.splits)
    with "1.prems" show ?thesis by (simp add: finish_def)
  next
    case False
    show ?thesis
    proof (cases "next_parse s (currentNode s)")
      case None
      with False "1.prems" have "s' = finish s" by (simp add: walk_main.simps [of s])
      with "1.prems" show ?thesis by (simp add: finish_def)
    next
      case (Some j)
      with False "1.prems" obtain s1 where m: "mirror j s = Inr s1"
        and r: "(if isBlocked s1 then lookahead s1 else walk_main s1) = Inr s'"
        by (auto simp: walk_main.simps [of s] split: sum.splits)
      from mirror_keeps [OF m] "1.prems" have k: "resolve s1" "completion s1 = completion s" by simp_all
      show ?thesis
      proof (cases "isBlocked s1")
        case True
        with r have "lookahead s1 = Inr s'" by simp
        from lookahead_keeps [OF this] True k show ?thesis by simp
      next
        case b: False
        with r have w: "walk_main s1 = Inr s'" by simp
        from False have h: "\<not> host (arena s ! currentNode s) \<noteq> None" by simp
        from "1.IH" [OF h Some m b b k(1) w] k show ?thesis by simp
      qed
    qed
  qed
qed

lemma doc_write_keeps:
  "live (doc_write c s) = live s \<and> nextSibling (doc_write c s) = nextSibling s \<and>
   targetNodes (doc_write c s) = targetNodes s \<and> currentNode (doc_write c s) = currentNode s \<and>
   pendingText (doc_write c s) = pendingText s \<and> scanNode (doc_write c s) = scanNode s \<and>
   resolve (doc_write c s) = resolve s \<and> isBlocked (doc_write c s) = isBlocked s \<and>
   inlineHostNode (doc_write c s) = inlineHostNode s \<and> completion (doc_write c s) = completion s \<and>
   mediaMatches (doc_write c s) = mediaMatches s \<and> currentScript (doc_write c s) = currentScript s \<and>
   unreframedBody (doc_write c s) = unreframedBody s \<and> console (doc_write c s) = console s"
  by (simp add: doc_write_def split: prod.splits)

lemma textOf_cong: "arena s = arena s' \<Longrightarrow> live s = live s' \<Longrightarrow> textOf s = textOf s'"
  by (rule ext) (simp add: textOf_def info_def split: nref.splits)

text \<open>While blocked, \<^verbatim>\<open>write\<close> leaves the blocked flag, the promise and the mapping alone.\<close>

lemma syncText_frame: "syncText s = Inr s' \<Longrightarrow> s' = s\<lparr>live := live s'\<rparr>"
  by (auto simp: syncText_def split: option.splits if_splits)

lemma write_blocked_keeps:
  assumes "isBlocked s" "writeChunk chunk s = Inr s'"
  shows "isBlocked s' \<and> completion s' = completion s \<and> targetNodes s' = targetNodes s \<and>
    currentNode s' = currentNode s \<and> resolve s' = resolve s"
proof -
  from assms obtain s1 where y: "syncText (doc_write chunk s) = Inr s1" and w: "walk s1 = Inr s'"
    by (auto simp: writeChunk_def split: sum.splits)
  from syncText_frame [OF y] obtain L where s1: "s1 = (doc_write chunk s)\<lparr>live := L\<rparr>" by blast
  with assms(1) have b: "isBlocked s1" by (simp add: doc_write_keeps)
  with w have "lookahead s1 = Inr s'" by (simp add: walk_def)
  from lookahead_keeps [OF this] s1 show ?thesis using assms(1) by (simp add: doc_write_keeps)
qed

lemma length_live_flushInline: "length (live (flushInline a s)) = length (live s)"
  by (simp add: flushInline_def Let_def evalScript_keeps appendInlineTextIfNeeded_def adopt_def
      appendChild_def insertBefore_def setParent_def detach_def split: option.splits nref.splits)

lemma length_live_place: "length (live (place p c s)) = length (live s)"
  by (simp add: place_def Let_def evalScript_keeps appendChild_def insertBefore_def setParent_def)

section \<open>The invariant of a session\<close>

text \<open>
  \<open>pwf\<close>: a parent is created before its children and the open elements exist. \<open>sound\<close>:
  the walker's current node exists; the nodes in \<^verbatim>\<open>targetNodes\<close>, in the order they were
  entered, are the parse nodes from the root to the current node; no node after the
  current node has been moved into the live document; a pending text is the current
  node; a blocked session has no pending text and its current node is a blocking node.
\<close>

definition pwf :: "parser \<Rightarrow> bool" where
  "pwf P =
     (fst P \<noteq> [] \<and>
      (\<forall>j. 0 < j \<and> j < length (fst P) \<longrightarrow> parentNode (fst P ! j) < j) \<and>
      (\<forall>x \<in> set (snd P). x < length (fst P)))"

definition sound :: "state \<Rightarrow> bool" where
  "sound s =
     (pwf (arena s, openElems s) \<and>
      currentNode s < length (arena s) \<and>
      map fst (targetNodes s) = rev [0 ..< Suc (currentNode s)] \<and>
      (\<forall>j. currentNode s < j \<and> j < length (arena s) \<longrightarrow> host (arena s ! j) = None) \<and>
      (\<forall>t. pendingText s = Some t \<longrightarrow> t = currentNode s) \<and>
      (isBlocked s \<longrightarrow> pendingText s = None \<and> blocks s (currentNode s)))"

lemma sound_init: "sound (writableDOM ttag nb na mm cs)"
  by (auto simp: sound_def pwf_def writableDOM_def mkNode_def)

lemma current_less: "pwf (A, os) \<Longrightarrow> current os < length A"
  by (auto simp: pwf_def current_def split: list.splits)

text \<open>What the parser does to the nodes it has already made: only the data of the last
  one, when it is a text, can grow.\<close>

definition grows :: "pnode list \<Rightarrow> pnode list \<Rightarrow> bool" where
  "grows A B =
     (length A \<le> length B \<and>
      (\<forall>i. Suc i < length A \<longrightarrow> B ! i = A ! i) \<and>
      (\<forall>i. i < length A \<longrightarrow> B ! i = (A ! i)\<lparr>data := data (B ! i)\<rparr> \<and>
          (nodeType (A ! i) \<noteq> TEXT_NODE \<longrightarrow> B ! i = A ! i)) \<and>
      (\<forall>i. length A \<le> i \<and> i < length B \<longrightarrow> host (B ! i) = None))"

lemma data_upd_fields:
  "(x::pnode) = y\<lparr>data := d\<rparr> \<Longrightarrow>
   nodeType x = nodeType y \<and> tagName x = tagName y \<and> attrs x = attrs y \<and>
   parentNode x = parentNode y \<and> host x = host y"
  by simp

lemma data_upd_trans: "(x::pnode) = y\<lparr>data := d\<rparr> \<Longrightarrow> z = x\<lparr>data := e\<rparr> \<Longrightarrow> z = y\<lparr>data := e\<rparr>"
  by simp

lemma grows_refl: "grows A A"
  by (auto simp: grows_def)

lemma grows_trans:
  assumes "grows A B" "grows B C"
  shows "grows A C"
proof -
  have l: "length A \<le> length B" "length B \<le> length C" using assms by (simp_all add: grows_def)
  have 1: "\<And>i. Suc i < length A \<Longrightarrow> C ! i = A ! i"
    using assms l by (simp add: grows_def)
  have 2: "\<And>i. i < length A \<Longrightarrow> C ! i = (A ! i)\<lparr>data := data (C ! i)\<rparr> \<and>
          (nodeType (A ! i) \<noteq> TEXT_NODE \<longrightarrow> C ! i = A ! i)"
  proof -
    fix i assume i: "i < length A"
    with assms l have b: "B ! i = (A ! i)\<lparr>data := data (B ! i)\<rparr>"
      "nodeType (A ! i) \<noteq> TEXT_NODE \<longrightarrow> B ! i = A ! i"
      "C ! i = (B ! i)\<lparr>data := data (C ! i)\<rparr>"
      "nodeType (B ! i) \<noteq> TEXT_NODE \<longrightarrow> C ! i = B ! i"
      by (simp_all add: grows_def)
    from data_upd_fields [OF b(1)] have n: "nodeType (B ! i) = nodeType (A ! i)" by simp
    from data_upd_trans [OF b(1) b(3)] have "C ! i = (A ! i)\<lparr>data := data (C ! i)\<rparr>" .
    with b n show "C ! i = (A ! i)\<lparr>data := data (C ! i)\<rparr> \<and>
          (nodeType (A ! i) \<noteq> TEXT_NODE \<longrightarrow> C ! i = A ! i)" by simp
  qed
  have 3: "\<And>i. length A \<le> i \<and> i < length C \<Longrightarrow> host (C ! i) = None"
  proof -
    fix i assume i: "length A \<le> i \<and> i < length C"
    show "host (C ! i) = None"
    proof (cases "i < length B")
      case True
      with assms i have "host (B ! i) = None" "C ! i = (B ! i)\<lparr>data := data (C ! i)\<rparr>"
        by (simp_all add: grows_def)
      from data_upd_fields [OF this(2)] this(1) show ?thesis by simp
    next
      case False
      with assms i show ?thesis by (simp add: grows_def)
    qed
  qed
  from l 1 2 3 show ?thesis by (simp add: grows_def)
qed


lemma grows_feed: "grows A (fst (feed (A, os) t))"
proof (cases t)
  case (Characters d)
  show ?thesis unfolding Characters
    by (auto simp: grows_def nth_upd openText_def last_conv_nth nth_append mkNode_def less_Suc_eq)
qed (auto simp: grows_def nth_append mkNode_def)

lemma pwf_feed: "pwf (A, os) \<Longrightarrow> pwf (feed (A, os) t)"
proof (cases t)
  case (StartTag tg a)
  assume i: "pwf (A, os)"
  from current_less [OF i] i show ?thesis unfolding StartTag
    by (auto simp: pwf_def nth_append mkNode_def less_Suc_eq)
next
  case EndTag
  assume "pwf (A, os)"
  then show ?thesis unfolding EndTag
    by (cases os) (auto simp: pwf_def)
next
  case (Characters d)
  assume i: "pwf (A, os)"
  from current_less [OF i] i show ?thesis unfolding Characters
    by (auto simp: pwf_def nth_append mkNode_def less_Suc_eq nth_upd openText_def last_conv_nth)
next
  case (CommentTok d)
  assume i: "pwf (A, os)"
  from current_less [OF i] i show ?thesis unfolding CommentTok
    by (auto simp: pwf_def nth_append mkNode_def less_Suc_eq)
qed

lemma parse_sound: "pwf P \<Longrightarrow> pwf (parse c P) \<and> grows (fst P) (fst (parse c P))"
  unfolding parse_def
proof (induction c arbitrary: P)
  case Nil
  then show ?case by (simp add: grows_refl)
next
  case (Cons t c)
  obtain A os where P: "P = (A, os)" by (cases P)
  from Cons.prems P have w: "pwf (feed P t)" by (simp add: pwf_feed)
  from Cons.IH [OF w] grows_feed [of A os t] P show ?case
    by (auto intro: grows_trans)
qed


lemma sound_doc_write:
  assumes "sound s"
  shows "sound (doc_write c s)"
proof -
  obtain A os where P: "parse c (arena s, openElems s) = (A, os)" by (cases "parse c (arena s, openElems s)")
  from assms have w: "pwf (arena s, openElems s)" by (simp add: sound_def)
  from parse_sound [OF w, of c] P have p: "pwf (A, os)" and g: "grows (arena s) A" by simp_all
  have d: "doc_write c s = s\<lparr>arena := A, openElems := os\<rparr>" by (simp add: doc_write_def P)
  from g have l: "length (arena s) \<le> length A" by (simp add: grows_def)
  have h: "\<And>j. currentNode s < j \<and> j < length A \<Longrightarrow> host (A ! j) = None"
  proof -
    fix j assume j: "currentNode s < j \<and> j < length A"
    show "host (A ! j) = None"
    proof (cases "j < length (arena s)")
      case True
      with g have "A ! j = (arena s ! j)\<lparr>data := data (A ! j)\<rparr>" by (simp add: grows_def)
      from data_upd_fields [OF this] assms j True show ?thesis by (simp add: sound_def)
    next
      case False
      with g j show ?thesis by (simp add: grows_def)
    qed
  qed
  have b: "isBlocked s \<Longrightarrow> blocks (s\<lparr>arena := A, openElems := os\<rparr>) (currentNode s)"
  proof -
    assume "isBlocked s"
    with assms have b: "blocks s (currentNode s)" and c: "currentNode s < length (arena s)"
      by (simp_all add: sound_def)
    then have "nodeType (arena s ! currentNode s) \<noteq> TEXT_NODE" by (simp add: blocks_def)
    with g c have "A ! currentNode s = arena s ! currentNode s" by (simp add: grows_def)
    with b show ?thesis by (simp add: blocks_def)
  qed
  from assms p l h b show ?thesis unfolding d by (simp add: sound_def)
qed

lemma arena_flushInline:
  "arena (flushInline a s) =
     (case a of None \<Rightarrow> arena s
      | Some t \<Rightarrow> (case inlineHostNode s of None \<Rightarrow> arena s
                   | Some h \<Rightarrow> (arena s)[t := (arena s ! t)\<lparr>host := Some h\<rparr>]))"
  by (simp add: flushInline_def Let_def evalScript_keeps append_keeps
      appendInlineTextIfNeeded_def adopt_def split: option.splits)

lemma mirror_arena:
  assumes "mirror j s = Inr s'"
  shows "arena s' = arena s \<or>
    (\<exists>t h. pendingText s = Some t \<and> arena s' = (arena s)[t := (arena s ! t)\<lparr>host := Some h\<rparr>])"
  using assms
proof (cases rule: mirror_cases)
  case (1 p)
  then show ?thesis by (simp add: visit_def)
next
  case (2 p)
  then show ?thesis
    by (auto simp: place_keeps arena_flushInline visit_def split: option.splits)
qed

lemma next_parse_sound:
  assumes "sound s" "host (arena s ! currentNode s) = None"
  shows "next_parse s (currentNode s) =
    (if Suc (currentNode s) < length (arena s) then Some (Suc (currentNode s)) else None)"
proof (cases "Suc (currentNode s) < length (arena s)")
  case True
  with assms have "host (arena s ! Suc (currentNode s)) = None" by (simp add: sound_def)
  with True show ?thesis
    by (simp add: next_parse_def upt_conv_Cons)
next
  case False
  then show ?thesis by (simp add: next_parse_def)
qed

lemma sound_mirror:
  assumes "sound s" "\<not> isBlocked s" "j = Suc (currentNode s)" "j < length (arena s)"
    "mirror j s = Inr s'"
  shows "sound s'"
proof -
  note k = mirror_keeps [OF assms(5)]
  from mirror_arena [OF assms(5)]
  have a: "length (arena s') = length (arena s) \<and>
     (\<forall>i. parentNode (arena s' ! i) = parentNode (arena s ! i)) \<and>
     (\<forall>i. j \<le> i \<longrightarrow> host (arena s' ! i) = host (arena s ! i))"
  proof
    assume "arena s' = arena s"
    then show ?thesis by simp
  next
    assume "\<exists>t h. pendingText s = Some t \<and> arena s' = (arena s)[t := (arena s ! t)\<lparr>host := Some h\<rparr>]"
    then obtain t h where t: "pendingText s = Some t"
      "arena s' = (arena s)[t := (arena s ! t)\<lparr>host := Some h\<rparr>]" by blast
    with assms(1) have "t = currentNode s" by (simp add: sound_def)
    with t assms(3) show ?thesis by (auto simp: nth_upd)
  qed
  have b: "blocks s j \<longrightarrow> nodeType (arena s ! j) \<noteq> TEXT_NODE" by (simp add: blocks_def)
  have "arena s' ! j = arena s ! j"
    using mirror_arena [OF assms(5)] assms(1,3) by (auto simp: nth_upd sound_def)
  with k have c: "blocks s' j = blocks s j" by (simp add: blocks_def)
  from assms(1-4) k a b c show ?thesis
    by (auto simp: sound_def pwf_def)
qed


lemma sound_live_scan: "sound s \<Longrightarrow> sound (s\<lparr>live := L, scanNode := n\<rparr>)"
  by (simp add: sound_def blocks_def)

lemma sound_live: "sound s \<Longrightarrow> sound (s\<lparr>live := L\<rparr>)"
  by (simp add: sound_def blocks_def)

lemma sound_lookahead:
  assumes "sound s" "lookahead s = Inr s'"
  shows "sound s'"
proof -
  from lookahead_frame [OF assms(2)] obtain L n where "s' = s\<lparr>live := L, scanNode := n\<rparr>"
    by blast
  with assms(1) show ?thesis by (simp add: sound_live_scan)
qed

lemma sound_finish: "sound s \<Longrightarrow> sound (finish s)"
  by (simp add: finish_def sound_def blocks_def)

lemma sound_walk_main:
  "sound s \<Longrightarrow> \<not> isBlocked s \<Longrightarrow> walk_main s = Inr s' \<Longrightarrow> sound s'"
proof (induction s rule: walk_main.induct)
  case (1 s)
  show ?case
  proof (cases "host (arena s ! currentNode s) \<noteq> None")
    case True
    with "1.prems" have "s' = finish s"
      by (auto simp: walk_main.simps [of s] split: option.splits)
    with "1.prems" show ?thesis by (simp add: sound_finish)
  next
    case False
    then have h: "host (arena s ! currentNode s) = None" by simp
    show ?thesis
    proof (cases "next_parse s (currentNode s)")
      case None
      with False "1.prems" have "s' = finish s" by (simp add: walk_main.simps [of s])
      with "1.prems" show ?thesis by (simp add: sound_finish)
    next
      case (Some j)
      with next_parse_sound [OF "1.prems"(1) h]
      have j: "j = Suc (currentNode s)" "j < length (arena s)" by (auto split: if_splits)
      from Some False "1.prems" obtain s1 where m: "mirror j s = Inr s1"
        and r: "(if isBlocked s1 then lookahead s1 else walk_main s1) = Inr s'"
        by (auto simp: walk_main.simps [of s] split: sum.splits)
      from sound_mirror [OF "1.prems"(1,2) j m] have s1: "sound s1" .
      show ?thesis
      proof (cases "isBlocked s1")
        case True
        with r s1 show ?thesis by (auto intro: sound_lookahead)
      next
        case b: False
        with r have w: "walk_main s1 = Inr s'" by simp
        from "1.IH" [OF False Some m b s1 b w] show ?thesis .
      qed
    qed
  qed
qed

lemma sound_walk: "sound s \<Longrightarrow> walk s = Inr s' \<Longrightarrow> sound s'"
  by (auto simp: walk_def intro: sound_lookahead sound_walk_main split: if_splits)

lemma sound_write: 
  assumes "sound s" "writeChunk c s = Inr s'"
  shows "sound s'"
proof -
  from assms(2) obtain s1 where y: "syncText (doc_write c s) = Inr s1" and w: "walk s1 = Inr s'"
    by (auto simp: writeChunk_def split: sum.splits)
  from syncText_frame [OF y] sound_doc_write [OF assms(1), of c] have "sound s1"
    by (metis sound_live)
  from sound_walk [OF this w] show ?thesis .
qed

lemma sound_flushInline:
  assumes "sound s"
  shows "sound (flushInline (pendingText s) s)"
proof -
  have "\<And>t h. pendingText s = Some t \<Longrightarrow> t = currentNode s"
    using assms by (simp add: sound_def)
  with assms show ?thesis
    by (auto simp: sound_def pwf_def blocks_def flushInline_keeps arena_flushInline nth_upd
        split: option.splits)
qed

lemma sound_close: "sound s \<Longrightarrow> sound (close s)"
proof -
  assume a: "sound s"
  have "\<And>u r c. sound u \<Longrightarrow> sound (u\<lparr>resolve := r, completion := c\<rparr>)"
    "\<And>u c. sound u \<Longrightarrow> sound (u\<lparr>completion := c\<rparr>)"
    by (simp_all add: sound_def blocks_def)
  with sound_flushInline [OF a] show ?thesis by (simp add: close_def Let_def)
qed

lemma sound_abort: "sound s \<Longrightarrow> abort s = Inr s' \<Longrightarrow> sound s'"
  by (auto simp: abort_def sound_live split: if_splits option.splits)

lemma sound_fire:
  assumes "sound s" "fire l s = Inr s'"
  shows "sound s'"
proof -
  have u: "sound (s\<lparr>isBlocked := False\<rparr>)" using assms(1) by (simp add: sound_def blocks_def)
  from assms(2) have "s' = s \<or> s' = s\<lparr>live := remove l (live s)\<rparr> \<or> s' = s\<lparr>isBlocked := False\<rparr>
      \<or> walk (s\<lparr>isBlocked := False\<rparr>) = Inr s'"
    by (auto simp: fire_def Let_def split: option.splits handler.splits if_splits)
  with assms(1) u show ?thesis
    by (auto intro: sound_live sound_walk)
qed

lemma sound_evalDone: "sound s \<Longrightarrow> sound (evalDone i s)"
  by (simp add: evalDone_def sound_def blocks_def split: option.splits)

lemma sound_step: "sound s \<Longrightarrow> step e s = Inr s' \<Longrightarrow> sound s'"
  by (cases e) (auto intro: sound_write sound_abort sound_close sound_fire sound_evalDone)

lemma sound_run: "sound s \<Longrightarrow> run es s = Inr s' \<Longrightarrow> sound s'"
proof (induction es arbitrary: s)
  case Nil
  then show ?case by simp
next
  case (Cons e es)
  from Cons.prems(2) obtain s1 where "step e s = Inr s1" "run es s1 = Inr s'"
    by (auto split: sum.splits)
  with Cons.IH sound_step [OF Cons.prems(1)] show ?case by blast
qed

section \<open>The shape of the live tree\<close>

text \<open>
  \<open>tree L C ns\<close>, for the live document \<open>L\<close>, the live counterparts \<open>C\<close> of the parse
  nodes (the latest first) and the insertion point \<open>ns\<close>: the counterparts exist and are
  distinct, child lists and parents refer to existing nodes, no counterpart carries the
  handler of a preload link, no counterpart is at or behind the insertion point among the
  children of the target, and the counterparts among the children of a node are exactly
  those whose parent is that node, in the order in which they were made.
\<close>

definition isMirror :: "nat list \<Rightarrow> nref \<Rightarrow> bool" where
  "isMirror C r = (case r of LNode l \<Rightarrow> l \<in> set C | PNode _ \<Rightarrow> False)"

definition tree :: "lnode list \<Rightarrow> nat list \<Rightarrow> nat option \<Rightarrow> bool" where
  "tree L C ns =
     (L \<noteq> [] \<and> (\<forall>c \<in> set C. c < length L) \<and> distinct C \<and>
      (\<forall>p l. p < length L \<and> LNode l \<in> set (kids (L ! p)) \<longrightarrow> l < length L) \<and>
      (\<forall>c p. c < length L \<and> lparent (L ! c) = Some p \<longrightarrow> p < length L) \<and>
      (\<forall>c \<in> set C. onload (L ! c) \<noteq> Some RemoveSelf) \<and>
      (\<forall>r. ns = Some r \<longrightarrow> r < length L \<and>
         (\<forall>x \<in> set (dropWhile (\<lambda>x. x \<noteq> LNode r) (kids (L ! 0))). \<not> isMirror C x)) \<and>
      (\<forall>p < length L. filter (isMirror C) (kids (L ! p)) =
         map LNode (filter (\<lambda>c. lparent (L ! c) = Some p) (rev C))))"

definition ins :: "nref \<Rightarrow> nat option \<Rightarrow> nref list \<Rightarrow> nref list" where
  "ins c ref ks = (case ref of None \<Rightarrow> ks @ [c]
     | Some r \<Rightarrow> takeWhile (\<lambda>x. x \<noteq> LNode r) ks @ c # dropWhile (\<lambda>x. x \<noteq> LNode r) ks)"

lemma length_insertBefore: "length (insertBefore p c ref L) = length L"
  by (simp add: insertBefore_def setParent_def split: nref.splits)

lemma kids_insertBefore:
  "p < length L \<Longrightarrow>
   kids (insertBefore p c ref L ! q) = (if q = p then ins c ref (kids (L ! p)) else kids (L ! q))"
  by (auto simp: insertBefore_def setParent_def ins_def nth_upd split: nref.splits option.splits)

lemma lparent_insertBefore:
  "lparent (insertBefore p (LNode c) ref L ! q) =
     (if q = c \<and> c < length L then Some p else lparent (L ! q))"
  by (auto simp: insertBefore_def setParent_def nth_upd)

lemma onload_insertBefore: "onload (insertBefore p c ref L ! q) = onload (L ! q)"
  by (auto simp: insertBefore_def setParent_def nth_upd split: nref.splits)

lemma lparent_insertBefore_P: "lparent (insertBefore p (PNode t) ref L ! q) = lparent (L ! q)"
  by (auto simp: insertBefore_def setParent_def nth_upd)

lemma set_ins: "set (ins c ref ks) = insert c (set ks)"
  by (cases ref) (auto simp: ins_def dest: set_takeWhileD set_dropWhileD,
      metis UnE set_append takeWhile_dropWhile_id)

lemma filter_split:
  "filter P (takeWhile Q ks) @ filter P (dropWhile Q ks) = filter P ks"
  by (simp only: filter_append [symmetric] takeWhile_dropWhile_id)

lemma filter_ins_other: "\<not> P c \<Longrightarrow> filter P (ins c ref ks) = filter P ks"
  by (cases ref) (simp_all add: ins_def filter_split)

lemma filter_ins_last:
  assumes "P c" "\<And>r. ref = Some r \<Longrightarrow> \<forall>x \<in> set (dropWhile (\<lambda>x. x \<noteq> LNode r) ks). \<not> P x"
  shows "filter P (ins c ref ks) = filter P ks @ [c]"
proof (cases ref)
  case None
  with assms(1) show ?thesis by (simp add: ins_def)
next
  case (Some r)
  from assms(2) [OF Some] have d: "filter P (dropWhile (\<lambda>x. x \<noteq> LNode r) ks) = []"
    by (simp add: filter_empty_conv)
  from filter_split [of P "\<lambda>x. x \<noteq> LNode r" ks] d
  have "filter P (takeWhile (\<lambda>x. x \<noteq> LNode r) ks) = filter P ks" by simp
  with Some assms(1) d show ?thesis by (simp add: ins_def)
qed

lemma dropWhile_ins_at:
  "c \<noteq> LNode r \<Longrightarrow> dropWhile (\<lambda>x. x \<noteq> LNode r) (ins c (Some r) ks) =
     dropWhile (\<lambda>x. x \<noteq> LNode r) ks"
  by (induction ks) (simp_all add: ins_def)

lemma dropWhile_snoc_subset: "set (dropWhile P (ks @ [c])) \<subseteq> insert c (set (dropWhile P ks))"
  by (induction ks) auto

lemma dropWhile_filter_subset: "set (dropWhile P (filter Q ks)) \<subseteq> set (dropWhile P ks)"
  by (induction ks) (auto dest: set_dropWhileD)


lemma treeD:
  assumes "tree L C ns"
  shows "L \<noteq> []" "\<And>c. c \<in> set C \<Longrightarrow> c < length L" "distinct C"
    "\<And>p l. p < length L \<Longrightarrow> LNode l \<in> set (kids (L ! p)) \<Longrightarrow> l < length L"
    "\<And>c p. c < length L \<Longrightarrow> lparent (L ! c) = Some p \<Longrightarrow> p < length L"
    "\<And>c. c \<in> set C \<Longrightarrow> onload (L ! c) \<noteq> Some RemoveSelf"
    "\<And>r. ns = Some r \<Longrightarrow> r < length L"
    "\<And>r x. ns = Some r \<Longrightarrow> x \<in> set (dropWhile (\<lambda>x. x \<noteq> LNode r) (kids (L ! 0))) \<Longrightarrow> \<not> isMirror C x"
    "\<And>p. p < length L \<Longrightarrow> filter (isMirror C) (kids (L ! p)) =
         map LNode (filter (\<lambda>c. lparent (L ! c) = Some p) (rev C))"
  using assms unfolding tree_def by blast+

lemma treeI:
  assumes "L \<noteq> []" "\<And>c. c \<in> set C \<Longrightarrow> c < length L" "distinct C"
    "\<And>p l. p < length L \<Longrightarrow> LNode l \<in> set (kids (L ! p)) \<Longrightarrow> l < length L"
    "\<And>c p. c < length L \<Longrightarrow> lparent (L ! c) = Some p \<Longrightarrow> p < length L"
    "\<And>c. c \<in> set C \<Longrightarrow> onload (L ! c) \<noteq> Some RemoveSelf"
    "\<And>r. ns = Some r \<Longrightarrow> r < length L"
    "\<And>r x. ns = Some r \<Longrightarrow> x \<in> set (dropWhile (\<lambda>x. x \<noteq> LNode r) (kids (L ! 0))) \<Longrightarrow> \<not> isMirror C x"
    "\<And>p. p < length L \<Longrightarrow> filter (isMirror C) (kids (L ! p)) =
         map LNode (filter (\<lambda>c. lparent (L ! c) = Some p) (rev C))"
  shows "tree L C ns"
  using assms unfolding tree_def by blast

lemma filter_cong_set: "(\<And>x. x \<in> set xs \<Longrightarrow> P x = Q x) \<Longrightarrow> filter P xs = filter Q xs"
  by (rule filter_cong) simp_all

lemma tree_visit:
  assumes t: "tree L C ns" and n: "lparent n = None" "kids n = []" "onload n \<noteq> Some RemoveSelf"
  shows "tree (L @ [n]) (length L # C) ns"
proof (rule treeI)
  note d = treeD [OF t]
  show "L @ [n] \<noteq> []" by simp
  show "\<And>c. c \<in> set (length L # C) \<Longrightarrow> c < length (L @ [n])" using d(2) by fastforce
  show "distinct (length L # C)" using d(2,3) by fastforce
  show "\<And>p l. p < length (L @ [n]) \<Longrightarrow> LNode l \<in> set (kids ((L @ [n]) ! p)) \<Longrightarrow> l < length (L @ [n])"
    using d(4) n(2) by (fastforce simp: nth_append split: if_splits)
  show "\<And>c p. c < length (L @ [n]) \<Longrightarrow> lparent ((L @ [n]) ! c) = Some p \<Longrightarrow> p < length (L @ [n])"
    using d(5) n(1) by (fastforce simp: nth_append split: if_splits)
  show "\<And>c. c \<in> set (length L # C) \<Longrightarrow> onload ((L @ [n]) ! c) \<noteq> Some RemoveSelf"
    using d(2,6) n(3) by (fastforce simp: nth_append split: if_splits)
  show "\<And>r. ns = Some r \<Longrightarrow> r < length (L @ [n])" using d(7) by fastforce
  have k0: "kids ((L @ [n]) ! 0) = kids (L ! 0)" using d(1) by (simp add: nth_append)
  have m: "\<And>x p. p < length L \<Longrightarrow> x \<in> set (kids (L ! p)) \<Longrightarrow>
      isMirror (length L # C) x = isMirror C x"
    using d(4) by (fastforce simp: isMirror_def split: nref.splits)
  show "\<And>r x. ns = Some r \<Longrightarrow>
      x \<in> set (dropWhile (\<lambda>x. x \<noteq> LNode r) (kids ((L @ [n]) ! 0))) \<Longrightarrow>
      \<not> isMirror (length L # C) x"
  proof -
    fix r x assume a: "ns = Some r" "x \<in> set (dropWhile (\<lambda>x. x \<noteq> LNode r) (kids ((L @ [n]) ! 0)))"
    then have x: "x \<in> set (dropWhile (\<lambda>x. x \<noteq> LNode r) (kids (L ! 0)))" by (simp add: k0)
    then have "x \<in> set (kids (L ! 0))" by (rule set_dropWhileD)
    with m [of 0 x] d(1) d(8) [OF a(1) x] show "\<not> isMirror (length L # C) x" by simp
  qed
  show "\<And>p. p < length (L @ [n]) \<Longrightarrow> filter (isMirror (length L # C)) (kids ((L @ [n]) ! p)) =
         map LNode (filter (\<lambda>c. lparent ((L @ [n]) ! c) = Some p) (rev (length L # C)))"
  proof -
    fix p assume p: "p < length (L @ [n])"
    have r: "filter (\<lambda>c. lparent ((L @ [n]) ! c) = Some p) (rev C) =
        filter (\<lambda>c. lparent (L ! c) = Some p) (rev C)"
      by (rule filter_cong_set) (use d(2) in \<open>simp add: nth_append\<close>)
    show "filter (isMirror (length L # C)) (kids ((L @ [n]) ! p)) =
         map LNode (filter (\<lambda>c. lparent ((L @ [n]) ! c) = Some p) (rev (length L # C)))"
    proof (cases "p < length L")
      case True
      have "filter (isMirror (length L # C)) (kids (L ! p)) = filter (isMirror C) (kids (L ! p))"
        by (rule filter_cong_set) (rule m [OF True])
      with True d(9) [OF True] r n(1) show ?thesis by (simp add: nth_append)
    next
      case False
      with p have e: "p = length L" by simp
      have "filter (\<lambda>c. lparent (L ! c) = Some (length L)) (rev C) = []"
        using d(2) d(5) by (fastforce simp: filter_empty_conv)
      with e r n show ?thesis by (simp add: nth_append)
    qed
  qed
qed


lemma tree_insert:
  assumes t: "tree L C ns" and p: "p < length L" and c: "c < length L" "lparent (L ! c) = None"
      "ns \<noteq> Some c"
    and m: "c \<in> set C \<Longrightarrow> \<exists>C'. C = c # C'" and ref: "ref = (if p = 0 then ns else None)"
  shows "tree (insertBefore p (LNode c) ref L) C ns"
proof (rule treeI)
  note d = treeD [OF t]
  let ?L = "insertBefore p (LNode c) ref L"
  have len: "length ?L = length L" by (rule length_insertBefore)
  have k: "\<And>q. kids (?L ! q) = (if q = p then ins (LNode c) ref (kids (L ! p)) else kids (L ! q))"
    using p by (rule kids_insertBefore)
  have lp: "\<And>q. lparent (?L ! q) = (if q = c then Some p else lparent (L ! q))"
    using c(1) by (simp add: lparent_insertBefore)
  show "?L \<noteq> []" using d(1) len by (metis length_0_conv)
  show "\<And>c. c \<in> set C \<Longrightarrow> c < length ?L" using d(2) len by simp
  show "distinct C" by (rule d(3))
  show "\<And>q l. q < length ?L \<Longrightarrow> LNode l \<in> set (kids (?L ! q)) \<Longrightarrow> l < length ?L"
    using d(4) c(1) p by (auto simp: k len set_ins split: if_splits)
  show "\<And>c' q. c' < length ?L \<Longrightarrow> lparent (?L ! c') = Some q \<Longrightarrow> q < length ?L"
    using d(5) p by (auto simp: lp len split: if_splits)
  show "\<And>c. c \<in> set C \<Longrightarrow> onload (?L ! c) \<noteq> Some RemoveSelf"
    using d(6) by (simp add: onload_insertBefore)
  show "\<And>r. ns = Some r \<Longrightarrow> r < length ?L" using d(7) len by simp
  show "\<And>r x. ns = Some r \<Longrightarrow> x \<in> set (dropWhile (\<lambda>x. x \<noteq> LNode r) (kids (?L ! 0))) \<Longrightarrow>
      \<not> isMirror C x"
  proof -
    fix r x assume a: "ns = Some r" "x \<in> set (dropWhile (\<lambda>x. x \<noteq> LNode r) (kids (?L ! 0)))"
    show "\<not> isMirror C x"
    proof (cases "p = 0")
      case True
      with ref a(1) have "ref = Some r" by simp
      moreover from a(1) c(3) have "LNode c \<noteq> LNode r" by auto
      moreover from k [of 0] True have "kids (?L ! 0) = ins (LNode c) ref (kids (L ! 0))" by simp
      ultimately have "dropWhile (\<lambda>x. x \<noteq> LNode r) (kids (?L ! 0)) =
          dropWhile (\<lambda>x. x \<noteq> LNode r) (kids (L ! 0))"
        using dropWhile_ins_at [of "LNode c" r "kids (L ! 0)"] by simp
      with a d(8) show ?thesis by simp
    next
      case False
      with a d(8) show ?thesis by (simp add: k)
    qed
  qed
  show "\<And>q. q < length ?L \<Longrightarrow> filter (isMirror C) (kids (?L ! q)) =
         map LNode (filter (\<lambda>c. lparent (?L ! c) = Some q) (rev C))"
  proof -
    fix q assume "q < length ?L"
    then have q: "q < length L" by (simp add: len)
    show "filter (isMirror C) (kids (?L ! q)) =
         map LNode (filter (\<lambda>c. lparent (?L ! c) = Some q) (rev C))"
    proof (cases "q = p")
      case False
      have "filter (\<lambda>c. lparent (?L ! c) = Some q) (rev C) =
          filter (\<lambda>c. lparent (L ! c) = Some q) (rev C)"
        by (rule filter_cong_set) (use False c(2) in \<open>auto simp: lp\<close>)
      with False d(9) [OF q] show ?thesis by (simp add: k)
    next
      case True
      show ?thesis
      proof (cases "c \<in> set C")
        case False
        then have "\<not> isMirror C (LNode c)" by (simp add: isMirror_def)
        then have l: "filter (isMirror C) (kids (?L ! q)) = filter (isMirror C) (kids (L ! p))"
          using True by (simp add: k filter_ins_other)
        have "filter (\<lambda>c. lparent (?L ! c) = Some q) (rev C) =
          filter (\<lambda>c. lparent (L ! c) = Some q) (rev C)"
          by (rule filter_cong_set) (use False in \<open>auto simp: lp\<close>)
        with l True d(9) [OF q] show ?thesis by simp
      next
        case c_in: True
        from m [OF this] obtain C' where C: "C = c # C'" by blast
        with d(3) have nc: "c \<notin> set C'" by simp
        have mc: "isMirror C (LNode c)" using c_in by (simp add: isMirror_def)
        have "\<And>r. ref = Some r \<Longrightarrow>
            \<forall>x \<in> set (dropWhile (\<lambda>x. x \<noteq> LNode r) (kids (L ! p))). \<not> isMirror C x"
          using ref d(8) by (auto split: if_splits)
        from filter_ins_last [of "isMirror C" "LNode c" ref "kids (L ! p)", OF mc this]
        have l: "filter (isMirror C) (kids (?L ! q)) = filter (isMirror C) (kids (L ! p)) @ [LNode c]"
          using True by (simp add: k)
        have "filter (\<lambda>c. lparent (?L ! c) = Some p) (rev C') =
          filter (\<lambda>c. lparent (L ! c) = Some p) (rev C')"
          by (rule filter_cong_set) (use nc in \<open>auto simp: lp\<close>)
        then have r: "filter (\<lambda>c. lparent (?L ! c) = Some p) (rev C) =
          filter (\<lambda>c. lparent (L ! c) = Some p) (rev C) @ [c]"
          using C c(2) by (simp add: lp)
        from l r True d(9) [OF q] show ?thesis by simp
      qed
    qed
  qed
qed

lemma tree_append:
  assumes t: "tree L C ns" and n: "lparent n = None" "kids n = []"
  shows "tree (L @ [n]) C ns"
proof (rule treeI)
  note d = treeD [OF t]
  show "L @ [n] \<noteq> []" by simp
  show "\<And>c. c \<in> set C \<Longrightarrow> c < length (L @ [n])" using d(2) by fastforce
  show "distinct C" by (rule d(3))
  show "\<And>p l. p < length (L @ [n]) \<Longrightarrow> LNode l \<in> set (kids ((L @ [n]) ! p)) \<Longrightarrow> l < length (L @ [n])"
    using d(4) n(2) by (fastforce simp: nth_append split: if_splits)
  show "\<And>c p. c < length (L @ [n]) \<Longrightarrow> lparent ((L @ [n]) ! c) = Some p \<Longrightarrow> p < length (L @ [n])"
    using d(5) n(1) by (fastforce simp: nth_append split: if_splits)
  show "\<And>c. c \<in> set C \<Longrightarrow> onload ((L @ [n]) ! c) \<noteq> Some RemoveSelf"
    using d(2,6) by (fastforce simp: nth_append split: if_splits)
  show "\<And>r. ns = Some r \<Longrightarrow> r < length (L @ [n])" using d(7) by fastforce
  show "\<And>r x. ns = Some r \<Longrightarrow>
      x \<in> set (dropWhile (\<lambda>x. x \<noteq> LNode r) (kids ((L @ [n]) ! 0))) \<Longrightarrow> \<not> isMirror C x"
    using d(1) d(8) by (simp add: nth_append)
  show "\<And>p. p < length (L @ [n]) \<Longrightarrow> filter (isMirror C) (kids ((L @ [n]) ! p)) =
         map LNode (filter (\<lambda>c. lparent ((L @ [n]) ! c) = Some p) (rev C))"
  proof -
    fix p assume p: "p < length (L @ [n])"
    have r: "filter (\<lambda>c. lparent ((L @ [n]) ! c) = Some p) (rev C) =
        filter (\<lambda>c. lparent (L ! c) = Some p) (rev C)"
      by (rule filter_cong_set) (use d(2) in \<open>simp add: nth_append\<close>)
    show "filter (isMirror C) (kids ((L @ [n]) ! p)) =
         map LNode (filter (\<lambda>c. lparent ((L @ [n]) ! c) = Some p) (rev C))"
    proof (cases "p < length L")
      case True
      with d(9) [OF True] r show ?thesis by (simp add: nth_append)
    next
      case False
      with p have e: "p = length L" by simp
      have "filter (\<lambda>c. lparent (L ! c) = Some (length L)) (rev C) = []"
        using d(2) d(5) by (fastforce simp: filter_empty_conv)
      with e r n show ?thesis by (simp add: nth_append)
    qed
  qed
qed


lemma tree_kids:
  assumes t: "tree L C ns" and len: "length L' = length L"
    and lp: "\<And>q. lparent (L' ! q) = lparent (L ! q)" and ol: "\<And>q. onload (L' ! q) = onload (L ! q)"
    and f: "\<And>q. q < length L \<Longrightarrow> filter (isMirror C) (kids (L' ! q)) = filter (isMirror C) (kids (L ! q))"
    and m: "\<And>q l. q < length L \<Longrightarrow> LNode l \<in> set (kids (L' ! q)) \<Longrightarrow> LNode l \<in> set (kids (L ! q))"
    and dw: "\<And>r x. x \<in> set (dropWhile (\<lambda>x. x \<noteq> LNode r) (kids (L' ! 0))) \<Longrightarrow>
        x \<in> set (dropWhile (\<lambda>x. x \<noteq> LNode r) (kids (L ! 0))) \<or> \<not> isMirror C x"
  shows "tree L' C ns"
proof (rule treeI)
  note d = treeD [OF t]
  show "L' \<noteq> []" using d(1) len by (metis length_0_conv)
  show "\<And>c. c \<in> set C \<Longrightarrow> c < length L'" using d(2) len by simp
  show "distinct C" by (rule d(3))
  show "\<And>p l. p < length L' \<Longrightarrow> LNode l \<in> set (kids (L' ! p)) \<Longrightarrow> l < length L'"
    using d(4) m len by metis
  show "\<And>c p. c < length L' \<Longrightarrow> lparent (L' ! c) = Some p \<Longrightarrow> p < length L'"
    using d(5) by (simp add: lp len)
  show "\<And>c. c \<in> set C \<Longrightarrow> onload (L' ! c) \<noteq> Some RemoveSelf" using d(6) by (simp add: ol)
  show "\<And>r. ns = Some r \<Longrightarrow> r < length L'" using d(7) len by simp
  show "\<And>r x. ns = Some r \<Longrightarrow> x \<in> set (dropWhile (\<lambda>x. x \<noteq> LNode r) (kids (L' ! 0))) \<Longrightarrow>
      \<not> isMirror C x"
    using dw d(8) by blast
  show "\<And>p. p < length L' \<Longrightarrow> filter (isMirror C) (kids (L' ! p)) =
         map LNode (filter (\<lambda>c. lparent (L' ! c) = Some p) (rev C))"
    using d(9) f by (simp add: lp len)
qed

lemma tree_data: "tree L C ns \<Longrightarrow> tree (L[c := (L ! c)\<lparr>data := d\<rparr>]) C ns"
  by (rule tree_kids [of L]) (auto simp: nth_upd split: if_splits)

lemma detach_fields:
  "length (detach c par L) = length L \<and> lparent (detach c par L ! q) = lparent (L ! q) \<and>
   onload (detach c par L ! q) = onload (L ! q) \<and>
   kids (detach c par L ! q) =
     (if par = Some q \<and> q < length L then removeAll c (kids (L ! q)) else kids (L ! q))"
  by (auto simp: detach_def nth_upd split: option.splits)

lemma filter_removeAll_other: "\<not> P x \<Longrightarrow> filter P (removeAll x ks) = filter P ks"
  by (induction ks) auto

lemma dropWhile_removeAll_subset: "set (dropWhile P (removeAll x ks)) \<subseteq> set (dropWhile P ks)"
  by (induction ks) (auto dest: set_dropWhileD)

lemma tree_detachP: "tree L C ns \<Longrightarrow> tree (detach (PNode t) par L) C ns"
proof (rule tree_kids [of L])
  fix r x assume "x \<in> set (dropWhile (\<lambda>x. x \<noteq> LNode r) (kids (detach (PNode t) par L ! 0)))"
  then show "x \<in> set (dropWhile (\<lambda>x. x \<noteq> LNode r) (kids (L ! 0))) \<or> \<not> isMirror C x"
    using dropWhile_removeAll_subset [of "\<lambda>x. x \<noteq> LNode r" "PNode t" "kids (L ! 0)"]
    by (auto simp: detach_fields split: if_splits)
qed (auto simp: detach_fields filter_removeAll_other isMirror_def split: if_splits)

lemma tree_appendP_in:
  assumes "tree L C ns" "h < length L"
  shows "tree (appendChild h (PNode t) L) C ns"
proof (rule tree_kids [of L])
  show "tree L C ns" by fact
  show "length (appendChild h (PNode t) L) = length L"
    by (simp add: appendChild_def length_insertBefore)
  show "\<And>q. lparent (appendChild h (PNode t) L ! q) = lparent (L ! q)"
    by (simp add: appendChild_def lparent_insertBefore_P)
  show "\<And>q. onload (appendChild h (PNode t) L ! q) = onload (L ! q)"
    by (simp add: appendChild_def onload_insertBefore)
  have k: "\<And>q. kids (appendChild h (PNode t) L ! q) =
      (if q = h then kids (L ! h) @ [PNode t] else kids (L ! q))"
    using assms(2) by (simp add: appendChild_def kids_insertBefore ins_def)
  show "\<And>q. q < length L \<Longrightarrow> filter (isMirror C) (kids (appendChild h (PNode t) L ! q)) =
      filter (isMirror C) (kids (L ! q))"
    by (simp add: k isMirror_def)
  show "\<And>q l. q < length L \<Longrightarrow> LNode l \<in> set (kids (appendChild h (PNode t) L ! q)) \<Longrightarrow>
      LNode l \<in> set (kids (L ! q))"
    by (auto simp: k split: if_splits)
  fix r x assume "x \<in> set (dropWhile (\<lambda>x. x \<noteq> LNode r) (kids (appendChild h (PNode t) L ! 0)))"
  then show "x \<in> set (dropWhile (\<lambda>x. x \<noteq> LNode r) (kids (L ! 0))) \<or> \<not> isMirror C x"
    using dropWhile_snoc_subset [of "\<lambda>x. x \<noteq> LNode r" "kids (L ! 0)" "PNode t"]
    by (auto simp: k isMirror_def split: if_splits)
qed

lemma remove_fields:
  "length (remove l L) = length L \<and> onload (remove l L ! q) = onload (L ! q) \<and>
   lparent (remove l L ! q) = (if q = l \<and> l < length L then None else lparent (L ! q)) \<and>
   kids (remove l L ! q) =
     (if lparent (L ! l) = Some q \<and> q < length L then removeAll (LNode l) (kids (L ! q))
      else kids (L ! q))"
  by (auto simp: remove_def Let_def detach_fields nth_upd)

lemma removeAll_map_LNode: "removeAll (LNode l) (map LNode xs) = map LNode (filter (\<lambda>c. c \<noteq> l) xs)"
  by (induction xs) auto

lemma filter_removeAll_comm: "filter P (removeAll x ks) = removeAll x (filter P ks)"
  by (induction ks) auto

lemma tree_remove:
  assumes t: "tree L C ns"
  shows "tree (remove l L) C ns"
proof (rule treeI)
  note d = treeD [OF t]
  note rf = remove_fields [of l L]
  let ?L = "remove l L"
  show "?L \<noteq> []" using d(1) rf by (metis length_0_conv)
  show "\<And>c. c \<in> set C \<Longrightarrow> c < length ?L" using d(2) by (simp add: rf)
  show "distinct C" by (rule d(3))
  show "\<And>p l'. p < length ?L \<Longrightarrow> LNode l' \<in> set (kids (?L ! p)) \<Longrightarrow> l' < length ?L"
    using d(4) by (auto simp: remove_fields split: if_splits)
  show "\<And>c p. c < length ?L \<Longrightarrow> lparent (?L ! c) = Some p \<Longrightarrow> p < length ?L"
    using d(5) by (auto simp: remove_fields split: if_splits)
  show "\<And>c. c \<in> set C \<Longrightarrow> onload (?L ! c) \<noteq> Some RemoveSelf" using d(6) by (simp add: remove_fields)
  show "\<And>r. ns = Some r \<Longrightarrow> r < length ?L" using d(7) by (simp add: remove_fields)
  show "\<And>r x. ns = Some r \<Longrightarrow> x \<in> set (dropWhile (\<lambda>x. x \<noteq> LNode r) (kids (?L ! 0))) \<Longrightarrow>
      \<not> isMirror C x"
  proof -
    fix r x assume a: "ns = Some r" "x \<in> set (dropWhile (\<lambda>x. x \<noteq> LNode r) (kids (?L ! 0)))"
    then have "x \<in> set (dropWhile (\<lambda>x. x \<noteq> LNode r) (kids (L ! 0)))"
      using dropWhile_removeAll_subset [of "\<lambda>x. x \<noteq> LNode r" "LNode l" "kids (L ! 0)"]
      by (auto simp: remove_fields split: if_splits)
    with d(8) a(1) show "\<not> isMirror C x" by blast
  qed
  show "\<And>q. q < length ?L \<Longrightarrow> filter (isMirror C) (kids (?L ! q)) =
         map LNode (filter (\<lambda>c. lparent (?L ! c) = Some q) (rev C))"
  proof -
    fix q assume "q < length ?L"
    then have q: "q < length L" by (simp add: remove_fields)
    show "filter (isMirror C) (kids (?L ! q)) =
         map LNode (filter (\<lambda>c. lparent (?L ! c) = Some q) (rev C))"
    proof (cases "lparent (L ! l) = Some q")
      case True
      have "filter (\<lambda>c. lparent (?L ! c) = Some q) (rev C) =
          filter (\<lambda>c. c \<noteq> l \<and> lparent (L ! c) = Some q) (rev C)"
        by (rule filter_cong_set) (use d(2) in \<open>auto simp: remove_fields\<close>)
      also have "\<dots> = filter (\<lambda>c. c \<noteq> l) (filter (\<lambda>c. lparent (L ! c) = Some q) (rev C))"
        by (simp add: conj_commute)
      finally have r: "map LNode (filter (\<lambda>c. lparent (?L ! c) = Some q) (rev C)) =
          removeAll (LNode l) (map LNode (filter (\<lambda>c. lparent (L ! c) = Some q) (rev C)))"
        by (simp only: removeAll_map_LNode)
      from True q have "filter (isMirror C) (kids (?L ! q)) =
          removeAll (LNode l) (filter (isMirror C) (kids (L ! q)))"
        by (simp add: remove_fields filter_removeAll_comm)
      with r d(9) [OF q] show ?thesis by simp
    next
      case False
      have "filter (\<lambda>c. lparent (?L ! c) = Some q) (rev C) =
          filter (\<lambda>c. lparent (L ! c) = Some q) (rev C)"
        by (rule filter_cong_set) (use False in \<open>auto simp: remove_fields\<close>)
      with False d(9) [OF q] show ?thesis by (simp add: remove_fields)
    qed
  qed
qed


lemma tree_appendP: "tree L C ns \<Longrightarrow> tree (appendChild h (PNode t) L) C ns"
proof (cases "h < length L")
  case True
  assume "tree L C ns"
  then show ?thesis using True by (rule tree_appendP_in)
next
  case False
  assume "tree L C ns"
  with False show ?thesis
    by (simp add: appendChild_def insertBefore_def setParent_def list_update_beyond)
qed

definition tidy :: "state \<Rightarrow> bool" where
  "tidy s = tree (live s) (map snd (targetNodes s)) (nextSibling s)"

lemma tidy_init: "tidy (writableDOM ttag nb na mm cs)"
proof -
  let ?n = "nb + na"
  let ?L = "elem ttag None (map LNode [1 ..< Suc ?n]) # map (\<lambda>i. elem ''DIV'' (Some 0) []) [1 ..< Suc ?n]"
  have n: "\<And>p. p < length ?L \<Longrightarrow> ?L ! p =
      (if p = 0 then elem ttag None (map LNode [1 ..< Suc ?n]) else elem ''DIV'' (Some 0) [])"
    by (auto simp: nth_Cons simp del: upt_Suc split: nat.splits)
  have k: "\<And>p. p < length ?L \<Longrightarrow> kids (?L ! p) = (if p = 0 then map LNode [1 ..< Suc ?n] else [])"
    by (simp only: n) (simp add: elem_def)
  have lp: "\<And>p. p < length ?L \<Longrightarrow> lparent (?L ! p) = (if p = 0 then None else Some 0)"
    by (simp only: n) (simp add: elem_def)
  have ol: "\<And>p. p < length ?L \<Longrightarrow> onload (?L ! p) = None"
    by (simp only: n) (simp add: elem_def)
  have len: "length ?L = Suc ?n" by (simp del: upt_Suc)
  have f: "filter (isMirror [0]) (map LNode [1 ..< Suc ?n]) = []"
    by (auto simp: filter_empty_conv isMirror_def)
  have "tree ?L [0] (if nb = 0 \<or> na = 0 then None else Some (Suc nb))"
  proof (rule treeI)
    show "?L \<noteq> []" by simp
    show "\<And>c. c \<in> set [0] \<Longrightarrow> c < length ?L" by simp
    show "distinct [0::nat]" by simp
    show "\<And>p l. p < length ?L \<Longrightarrow> LNode l \<in> set (kids (?L ! p)) \<Longrightarrow> l < length ?L"
      by (simp only: k len) (auto simp del: upt_Suc split: if_splits)
    show "\<And>c p. c < length ?L \<Longrightarrow> lparent (?L ! c) = Some p \<Longrightarrow> p < length ?L"
      by (simp only: lp len) (auto split: if_splits)
    show "\<And>c. c \<in> set [0] \<Longrightarrow> onload (?L ! c) \<noteq> Some RemoveSelf"
      using ol [of 0] by simp
    show "\<And>r. (if nb = 0 \<or> na = 0 then None else Some (Suc nb)) = Some r \<Longrightarrow> r < length ?L"
      by (auto split: if_splits)
    show "\<And>r x. (if nb = 0 \<or> na = 0 then None else Some (Suc nb)) = Some r \<Longrightarrow>
        x \<in> set (dropWhile (\<lambda>x. x \<noteq> LNode r) (kids (?L ! 0))) \<Longrightarrow> \<not> isMirror [0] x"
    proof -
      fix r x assume "x \<in> set (dropWhile (\<lambda>x. x \<noteq> LNode r) (kids (?L ! 0)))"
      then have "x \<in> set (kids (?L ! 0))" by (rule set_dropWhileD)
      then have "x \<in> set (map LNode [1 ..< Suc ?n])" using k [of 0] by simp
      then show "\<not> isMirror [0] x" by (auto simp: isMirror_def simp del: upt_Suc)
    qed
    show "\<And>p. p < length ?L \<Longrightarrow> filter (isMirror [0]) (kids (?L ! p)) =
         map LNode (filter (\<lambda>c. lparent (?L ! c) = Some p) (rev [0]))"
      using f lp [of 0] by (simp only: k) (simp del: upt_Suc)
  qed
  then show ?thesis by (simp add: tidy_def writableDOM_def)
qed

lemma live_flushInline:
  "live (flushInline a s) =
     (case a of None \<Rightarrow> live s
      | Some t \<Rightarrow> (case inlineHostNode s of None \<Rightarrow> live s
          | Some h \<Rightarrow> appendChild h (PNode t) (detach (PNode t) (host (arena s ! t)) (live s))))"
  by (simp add: flushInline_def Let_def evalScript_keeps append_keeps
      appendInlineTextIfNeeded_def adopt_def split: option.splits)

lemma tidy_flushInline: "tidy s \<Longrightarrow> tidy (flushInline a s)"
  by (simp add: tidy_def live_flushInline flushInline_keeps tree_appendP tree_detachP
      split: option.splits)

lemma tidy_preload: "tidy s \<Longrightarrow> tidy (preload n s)"
proof (cases "getPreloadLink (mediaMatches s) n")
  case None
  assume "tidy s"
  with None show ?thesis by (simp add: preload_def)
next
  case (Some a)
  assume t: "tidy s"
  let ?h = "\<lparr>nodeType = ELEMENT_NODE, tagName = ''LINK'', attrs = a, data = [],
               lparent = None, kids = [], onload = Some RemoveSelf\<rparr>"
  from t have t1: "tree (live s @ [?h]) (map snd (targetNodes s)) (nextSibling s)"
    unfolding tidy_def by (rule tree_append) simp_all
  note d = treeD(2,7) [OF t [unfolded tidy_def]]
  have "tree (insertBefore 0 (LNode (length (live s))) (nextSibling s) (live s @ [?h]))
      (map snd (targetNodes s)) (nextSibling s)"
  proof (rule tree_insert [OF t1])
    show "nextSibling s \<noteq> Some (length (live s))" using d(2) by fastforce
    show "length (live s) \<in> set (map snd (targetNodes s)) \<Longrightarrow>
        \<exists>C'. map snd (targetNodes s) = length (live s) # C'" using d(1) by fastforce
  qed simp_all
  with Some show ?thesis by (simp add: preload_def tidy_def)
qed

lemma tidy_scan: "tidy s \<Longrightarrow> tidy (s\<lparr>scanNode := x\<rparr>)"
  by (simp add: tidy_def)

lemma tidy_scan_parse: "tidy s \<Longrightarrow> tidy (scan_parse i s)"
proof (induction i s rule: scan_parse.induct)
  case (1 i s)
  show ?case
  proof (cases "next_parse s i")
    case None
    with 1 show ?thesis by (simp add: scan_parse.simps)
  next
    case (Some j)
    with "1.IH" [OF Some] "1.prems" show ?thesis
      by (simp add: scan_parse.simps [of i s] tidy_preload tidy_scan)
  qed
qed

lemma tidy_scan_live: "tidy s \<Longrightarrow> scan_live k r s = Inr s' \<Longrightarrow> tidy s'"
proof (induction k r s rule: scan_live.induct)
  case (1 r s)
  then show ?case by (simp add: scan_live.simps)
next
  case (2 k r s)
  show ?case
  proof (cases "live_next s r")
    case None
    with 2 show ?thesis by (simp add: scan_live.simps)
  next
    case (Some x)
    with "2.prems" have "scan_live k x (preload (info s x) (s\<lparr>scanNode := Some x\<rparr>)) = Inr s'"
      by (simp add: scan_live.simps)
    from "2.IH" [OF Some _ this] "2.prems"(1) show ?thesis by (simp add: tidy_preload tidy_scan)
  qed
qed

lemma tidy_lookahead: "tidy s \<Longrightarrow> lookahead s = Inr s' \<Longrightarrow> tidy s'"
  by (auto simp: lookahead_def tidy_scan_parse tidy_scan_live split: if_splits)

lemma tidy_place:
  assumes t: "tidy s" and p: "p < length (live s)" and c: "c < length (live s)"
    "lparent (live s ! c) = None" "\<exists>C'. map snd (targetNodes s) = c # C'"
    "nextSibling s \<noteq> Some c"
  shows "tidy (place p c s)"
proof -
  have "tree (insertBefore p (LNode c) (if p = 0 then nextSibling s else None) (live s))
    (map snd (targetNodes s)) (nextSibling s)"
    using t [unfolded tidy_def] p c(1,2,4) c(3) by (rule tree_insert) simp_all
  then show ?thesis
    by (cases "p = 0") (simp_all add: place_def Let_def tidy_def evalScript_keeps appendChild_def)
qed

lemma lparent_flushInline: "lparent (live (flushInline a s) ! q) = lparent (live s ! q)"
  by (simp add: live_flushInline appendChild_def lparent_insertBefore_P detach_fields
      split: option.splits)

lemma tidy_mirror:
  assumes t: "tidy s" and m: "mirror j s = Inr s'"
  shows "tidy s'"
using m proof (cases rule: mirror_cases)
  case (1 p)
  have "tree (live s @ [cloneOf s j]) (length (live s) # map snd (targetNodes s)) (nextSibling s)"
    using t [unfolded tidy_def] by (rule tree_visit) (simp_all add: cloneOf_def importNode_def)
  with 1 show ?thesis by (simp add: tidy_def visit_def)
next
  case (2 p)
  let ?n = "length (live s)"
  let ?s2 = "(visit j s)\<lparr>targetNodes := (j, ?n) # targetNodes s\<rparr>"
  let ?s3 = "(flushInline (pendingText s) ?s2)\<lparr>inlineHostNode := None\<rparr>"
  note d = treeD [OF t [unfolded tidy_def]]
  have "tree (live s @ [cloneOf s j]) (?n # map snd (targetNodes s)) (nextSibling s)"
    using t [unfolded tidy_def] by (rule tree_visit) (simp_all add: cloneOf_def importNode_def)
  then have t2: "tidy ?s2" by (simp add: tidy_def visit_def)
  then have "tidy (flushInline (pendingText s) ?s2)" by (rule tidy_flushInline)
  then have t3: "tidy ?s3" by (simp add: tidy_def)
  have l3: "length (live ?s3) = Suc ?n" by (simp add: length_live_flushInline visit_def)
  from map_of_SomeD [OF 2(1)] have "p \<in> set (map snd (targetNodes s))"
    by force
  with d(2) have p: "p < ?n" by simp
  have "tidy (place p ?n ?s3)"
  proof (rule tidy_place [OF t3])
    show "p < length (live ?s3)" using p l3 by simp
    show "?n < length (live ?s3)" using l3 by simp
    show "lparent (live ?s3 ! ?n) = None"
      by (simp add: lparent_flushInline) (simp add: visit_def cloneOf_def importNode_def)
    show "\<exists>C'. map snd (targetNodes ?s3) = ?n # C'" by (simp add: flushInline_keeps)
    show "nextSibling ?s3 \<noteq> Some ?n" using d(7) by (auto simp: flushInline_keeps visit_def)
  qed
  with 2 show ?thesis by simp
qed

lemma tidy_finish: "tidy s \<Longrightarrow> tidy (finish s)"
  by (simp add: finish_def tidy_def)

lemma tidy_walk_main: "tidy s \<Longrightarrow> walk_main s = Inr s' \<Longrightarrow> tidy s'"
proof (induction s rule: walk_main.induct)
  case (1 s)
  show ?case
  proof (cases "host (arena s ! currentNode s) \<noteq> None")
    case True
    with "1.prems" have "s' = finish s"
      by (auto simp: walk_main.simps [of s] split: option.splits)
    with "1.prems" show ?thesis by (simp add: tidy_finish)
  next
    case False
    show ?thesis
    proof (cases "next_parse s (currentNode s)")
      case None
      with False "1.prems" have "s' = finish s" by (simp add: walk_main.simps [of s])
      with "1.prems" show ?thesis by (simp add: tidy_finish)
    next
      case (Some j)
      with False "1.prems" obtain s1 where m: "mirror j s = Inr s1"
        and r: "(if isBlocked s1 then lookahead s1 else walk_main s1) = Inr s'"
        by (auto simp: walk_main.simps [of s] split: sum.splits)
      from tidy_mirror [OF "1.prems"(1) m] have t1: "tidy s1" .
      show ?thesis
      proof (cases "isBlocked s1")
        case True
        with r have "lookahead s1 = Inr s'" by simp
        with t1 show ?thesis by (rule tidy_lookahead)
      next
        case b: False
        with r have w: "walk_main s1 = Inr s'" by simp
        from False have h: "\<not> host (arena s ! currentNode s) \<noteq> None" by simp
        from "1.IH" [OF h Some m b t1 w] show ?thesis .
      qed
    qed
  qed
qed

lemma tidy_walk: "tidy s \<Longrightarrow> walk s = Inr s' \<Longrightarrow> tidy s'"
  using tidy_walk_main [of s s'] tidy_lookahead [of s s'] by (simp add: walk_def split: if_splits)

lemma tidy_syncText: "tidy s \<Longrightarrow> syncText s = Inr s' \<Longrightarrow> tidy s'"
  by (auto simp: syncText_def tidy_def tree_data split: option.splits if_splits)

lemma tidy_write: "tidy s \<Longrightarrow> writeChunk c s = Inr s' \<Longrightarrow> tidy s'"
proof -
  assume t: "tidy s" and w: "writeChunk c s = Inr s'"
  from w obtain s1 where y: "syncText (doc_write c s) = Inr s1" and k: "walk s1 = Inr s'"
    by (auto simp: writeChunk_def split: sum.splits)
  from t have "tidy (doc_write c s)" by (simp add: tidy_def doc_write_keeps)
  from tidy_walk [OF tidy_syncText [OF this y] k] show ?thesis .
qed

lemma tidy_step: "tidy s \<Longrightarrow> step e s = Inr s' \<Longrightarrow> tidy s'"
proof (cases e)
  case (Write c)
  assume "tidy s" "step e s = Inr s'"
  with Write tidy_write [of s c s'] show ?thesis by simp
next
  case Abort
  assume "tidy s" "step e s = Inr s'"
  with Abort show ?thesis by (auto simp: abort_def tidy_def tree_remove split: if_splits option.splits)
next
  case Close
  assume "tidy s" "step e s = Inr s'"
  with Close tidy_flushInline [of s "pendingText s"] show ?thesis
    by (auto simp: close_def Let_def tidy_def)
next
  case (Fire l)
  assume a: "tidy s" "step e s = Inr s'"
  then have "tidy (s\<lparr>isBlocked := False\<rparr>)" by (simp add: tidy_def)
  with a Fire tidy_walk [of "s\<lparr>isBlocked := False\<rparr>" s'] show ?thesis
    by (auto simp: fire_def Let_def tidy_def tree_remove split: option.splits handler.splits if_splits)
next
  case (EvalFire i)
  assume "tidy s" "step e s = Inr s'"
  with EvalFire show ?thesis by (auto simp: evalDone_def tidy_def split: option.splits if_splits)
qed

lemma tidy_run: "tidy s \<Longrightarrow> run es s = Inr s' \<Longrightarrow> tidy s'"
proof (induction es arbitrary: s)
  case Nil
  then show ?case by simp
next
  case (Cons e es)
  from Cons.prems(2) obtain s1 where e: "step e s = Inr s1" and r: "run es s1 = Inr s'"
    by (auto split: sum.splits)
  from Cons.IH [OF tidy_step [OF Cons.prems(1) e] r] show ?case .
qed

text \<open>The pending text is the walker's current node exactly when that node is a text,
  and only text nodes are ever moved into the live document.\<close>

definition held :: "state \<Rightarrow> bool" where
  "held s =
     (pendingText s = (if nodeType (arena s ! currentNode s) = TEXT_NODE
                       then Some (currentNode s) else None) \<and>
      (\<forall>j. j < length (arena s) \<and> host (arena s ! j) \<noteq> None \<longrightarrow>
           nodeType (arena s ! j) = TEXT_NODE))"

lemma held_init: "held (writableDOM ttag nb na mm cs)"
  by (auto simp: held_def writableDOM_def mkNode_def nth_Cons split: nat.splits)

lemma grows_old:
  assumes "grows A B" "i < length A"
  shows "nodeType (B ! i) = nodeType (A ! i) \<and> tagName (B ! i) = tagName (A ! i) \<and>
    attrs (B ! i) = attrs (A ! i) \<and> parentNode (B ! i) = parentNode (A ! i) \<and>
    host (B ! i) = host (A ! i)"
proof -
  from assms have "B ! i = (A ! i)\<lparr>data := data (B ! i)\<rparr>" by (simp add: grows_def)
  from data_upd_fields [OF this] show ?thesis .
qed

lemma grows_doc_write: "sound s \<Longrightarrow> grows (arena s) (arena (doc_write c s))"
proof -
  assume "sound s"
  then have w: "pwf (arena s, openElems s)" by (simp add: sound_def)
  from parse_sound [OF w, of c] show ?thesis
    by (cases "parse c (arena s, openElems s)") (simp add: doc_write_def)
qed

lemma held_doc_write:
  assumes "sound s" "held s"
  shows "held (doc_write c s)"
proof -
  note g = grows_doc_write [OF assms(1), of c]
  from assms(1) have c: "currentNode s < length (arena s)" by (simp add: sound_def)
  from grows_old [OF g c] have n: "nodeType (arena (doc_write c s) ! currentNode s) =
      nodeType (arena s ! currentNode s)" by simp
  have h: "\<And>j. j < length (arena (doc_write c s)) \<Longrightarrow> host (arena (doc_write c s) ! j) \<noteq> None \<Longrightarrow>
      nodeType (arena (doc_write c s) ! j) = TEXT_NODE"
  proof -
    fix j assume j: "j < length (arena (doc_write c s))" "host (arena (doc_write c s) ! j) \<noteq> None"
    show "nodeType (arena (doc_write c s) ! j) = TEXT_NODE"
    proof (cases "j < length (arena s)")
      case True
      from grows_old [OF g True] j assms(2) True show ?thesis by (simp add: held_def)
    next
      case False
      with g j show ?thesis by (simp add: grows_def)
    qed
  qed
  from assms(2) n h show ?thesis by (auto simp: held_def doc_write_keeps)
qed

lemma held_host:
  assumes "held s" "pendingText s = Some t"
  shows "held (s\<lparr>arena := (arena s)[t := (arena s ! t)\<lparr>host := h\<rparr>]\<rparr>)"
proof -
  from assms have "nodeType (arena s ! t) = TEXT_NODE" by (auto simp: held_def split: if_splits)
  with assms(1) show ?thesis by (auto simp: held_def nth_upd)
qed

lemma held_cong:
  "held s \<Longrightarrow> arena s' = arena s \<Longrightarrow> pendingText s' = pendingText s \<Longrightarrow>
   currentNode s' = currentNode s \<Longrightarrow> held s'"
  by (simp add: held_def)

lemma held_flushInline: "held s \<Longrightarrow> held (flushInline (pendingText s) s)"
proof -
  assume a: "held s"
  show ?thesis
  proof (cases "pendingText s")
    case None
    with a show ?thesis by (intro held_cong [OF a]) (simp_all add: arena_flushInline flushInline_keeps)
  next
    case (Some t)
    show ?thesis
    proof (cases "inlineHostNode s")
      case None
      with Some a show ?thesis
        by (intro held_cong [OF a]) (simp_all add: arena_flushInline flushInline_keeps)
    next
      case h: (Some h)
      from held_host [OF a Some, of "Some h"] Some h show ?thesis
        by (intro held_cong [OF held_host [OF a Some, of "Some h"]])
          (simp_all add: arena_flushInline flushInline_keeps)
    qed
  qed
qed

lemma held_mirror:
  assumes "held s" "mirror j s = Inr s'"
  shows "held s'"
proof -
  note k = mirror_keeps [OF assms(2)]
  from mirror_arena [OF assms(2)] show ?thesis
  proof
    assume "arena s' = arena s"
    with assms(1) k show ?thesis by (simp add: held_def)
  next
    assume "\<exists>t h. pendingText s = Some t \<and> arena s' = (arena s)[t := (arena s ! t)\<lparr>host := Some h\<rparr>]"
    then obtain t h where t: "pendingText s = Some t"
      "arena s' = (arena s)[t := (arena s ! t)\<lparr>host := Some h\<rparr>]" by blast
    from held_host [OF assms(1) t(1), of "Some h"] t(2) k show ?thesis
      by (auto simp: held_def nth_upd)
  qed
qed

lemma held_walk_main: "held s \<Longrightarrow> walk_main s = Inr s' \<Longrightarrow> held s'"
proof (induction s rule: walk_main.induct)
  case (1 s)
  show ?case
  proof (cases "host (arena s ! currentNode s) \<noteq> None")
    case True
    with "1.prems" have "s' = finish s"
      by (auto simp: walk_main.simps [of s] split: option.splits)
    with "1.prems" show ?thesis by (simp add: finish_def held_def)
  next
    case False
    show ?thesis
    proof (cases "next_parse s (currentNode s)")
      case None
      with False "1.prems" have "s' = finish s" by (simp add: walk_main.simps [of s])
      with "1.prems" show ?thesis by (simp add: finish_def held_def)
    next
      case (Some j)
      with False "1.prems" obtain s1 where m: "mirror j s = Inr s1"
        and r: "(if isBlocked s1 then lookahead s1 else walk_main s1) = Inr s'"
        by (auto simp: walk_main.simps [of s] split: sum.splits)
      from held_mirror [OF "1.prems"(1) m] have t1: "held s1" .
      show ?thesis
      proof (cases "isBlocked s1")
        case True
        with r have "lookahead s1 = Inr s'" by simp
        from lookahead_keeps [OF this] t1 show ?thesis by (simp add: held_def)
      next
        case b: False
        with r have w: "walk_main s1 = Inr s'" by simp
        from False have h: "\<not> host (arena s ! currentNode s) \<noteq> None" by simp
        from "1.IH" [OF h Some m b t1 w] show ?thesis .
      qed
    qed
  qed
qed

lemma held_walk: "held s \<Longrightarrow> walk s = Inr s' \<Longrightarrow> held s'"
proof -
  assume a: "held s" "walk s = Inr s'"
  show ?thesis
  proof (cases "isBlocked s")
    case True
    with a have "lookahead s = Inr s'" by (simp add: walk_def)
    from lookahead_keeps [OF this] a(1) show ?thesis by (simp add: held_def)
  next
    case False
    with a have "walk_main s = Inr s'" by (simp add: walk_def)
    with a(1) show ?thesis by (rule held_walk_main)
  qed
qed

lemma held_step:
  assumes "sound s" "held s" "step e s = Inr s'"
  shows "held s'"
proof (cases e)
  case (Write c)
  with assms(3) obtain s1 where y: "syncText (doc_write c s) = Inr s1" and k: "walk s1 = Inr s'"
    by (auto simp: writeChunk_def split: sum.splits)
  from syncText_frame [OF y] have "s1 = (doc_write c s)\<lparr>live := live s1\<rparr>" .
  then have "arena s1 = arena (doc_write c s)" "pendingText s1 = pendingText (doc_write c s)"
    "currentNode s1 = currentNode (doc_write c s)"
    by (metis state.select_convs(1) state.surjective state.update_convs(3),
        metis state.select_convs(7) state.surjective state.update_convs(3),
        metis state.select_convs(6) state.surjective state.update_convs(3))
  from held_cong [OF held_doc_write [OF assms(1,2), of c] this] have "held s1" .
  then show ?thesis using k by (rule held_walk)
next
  case Abort
  with assms show ?thesis by (auto simp: abort_def held_def split: if_splits option.splits)
next
  case Close
  have "\<And>u r c. held u \<Longrightarrow> held (u\<lparr>resolve := r, completion := c\<rparr>)"
    "\<And>u c. held u \<Longrightarrow> held (u\<lparr>completion := c\<rparr>)"
    by (simp_all add: held_def)
  with Close assms(3) held_flushInline [OF assms(2)] show ?thesis
    by (auto simp: close_def Let_def)
next
  case (Fire l)
  from assms(2) have "held (s\<lparr>isBlocked := False\<rparr>)" by (simp add: held_def)
  with assms Fire held_walk [of "s\<lparr>isBlocked := False\<rparr>" s'] show ?thesis
    by (auto simp: fire_def Let_def held_def split: option.splits handler.splits if_splits)
next
  case (EvalFire i)
  with assms show ?thesis by (auto simp: evalDone_def held_def split: option.splits if_splits)
qed

lemma held_run: "sound s \<Longrightarrow> held s \<Longrightarrow> run es s = Inr s' \<Longrightarrow> held s'"
proof (induction es arbitrary: s)
  case Nil
  then show ?case by simp
next
  case (Cons e es)
  from Cons.prems(3) obtain s1 where e: "step e s = Inr s1" and r: "run es s1 = Inr s'"
    by (auto split: sum.splits)
  from Cons.IH [OF sound_step [OF Cons.prems(1) e] held_step [OF Cons.prems(1,2) e] r] show ?case .
qed

section \<open>Example sessions\<close>

definition session :: "event list \<Rightarrow> state \<Rightarrow> state" where
  "session es s = (case run es s of Inr s' \<Rightarrow> s' | Inl e \<Rightarrow> s)"

definition fresh :: state where
  "fresh = writableDOM ''BODY'' 1 1 [] (Some Native)"

definition plain :: state where
  "plain = writableDOM ''BODY'' 0 0 [] (Some Native)"

definition noDescriptor :: state where
  "noDescriptor = writableDOM ''BODY'' 0 0 [] None"

definition staleScan :: "event list" where
  "staleScan =
     [Write [StartTag ''SCRIPT'' [(''src'', ''x'')], EndTag, StartTag ''SCRIPT'' [], Characters ''a''],
      Fire 1,
      Write [EndTag, StartTag ''LINK'' [(''rel'', ''stylesheet''), (''href'', ''y'')],
             StartTag ''IMG'' [(''src'', ''b'')]]]"

definition inlineExample :: state where
  "inlineExample = session [Write [StartTag ''SCRIPT'' [], Characters ''a'']] plain"

definition blockedMidway :: state where
  "blockedMidway =
     session [Write [StartTag ''P'' [], EndTag, StartTag ''SCRIPT'' [(''src'', ''x'')], EndTag,
                     StartTag ''P'' [], Characters ''after'', EndTag]] fresh"

definition blockedExample :: state where
  "blockedExample =
     session [Write [StartTag ''P'' [], EndTag, StartTag ''SCRIPT'' [(''src'', ''x'')], EndTag]]
       fresh"

section \<open>Cancellation\<close>

lemma remove_other:
  assumes "lparent (L ! c) = Some p" "c < length L" "p < length L" "p \<noteq> c"
  shows "length (remove c L) = length L \<and> lparent (remove c L ! c) = None \<and>
     kids (remove c L ! p) = removeAll (LNode c) (kids (L ! p)) \<and>
     (remove c L ! p)\<lparr>kids := kids (L ! p)\<rparr> = L ! p \<and>
     (remove c L ! c)\<lparr>lparent := Some p\<rparr> = L ! c \<and>
     (\<forall>l. l \<noteq> c \<and> l \<noteq> p \<longrightarrow> remove c L ! l = L ! l)"
  using assms by (auto simp: remove_def detach_def Let_def)

text \<open>
  C4. \<^verbatim>\<open>abort()\<close> on a session that is not blocked returns the state as it is. On a blocked
  session, where \<open>c\<close> is the live counterpart of the walker's current node (the blocking
  node) and \<open>p\<close> its live parent, it changes the live document only: \<open>c\<close> loses its parent,
  the child list of \<open>p\<close> is the old one without \<open>c\<close> (the siblings keep their places), and
  every other live node is as before.
\<close>

theorem abort_removes_blocking_node_only:
  "(\<not> isBlocked s \<longrightarrow> abort s = Inr s) \<and>
   (isBlocked s \<and> map_of (targetNodes s) (currentNode s) = Some c \<and>
    lparent (live s ! c) = Some p \<and> c < length (live s) \<and> p < length (live s) \<and> p \<noteq> c \<longrightarrow>
    (\<exists>L. abort s = Inr (s\<lparr>live := L\<rparr>) \<and> length L = length (live s) \<and>
       lparent (L ! c) = None \<and>
       kids (L ! p) = removeAll (LNode c) (kids (live s ! p)) \<and>
       (L ! p)\<lparr>kids := kids (live s ! p)\<rparr> = live s ! p \<and>
       (L ! c)\<lparr>lparent := Some p\<rparr> = live s ! c \<and>
       (\<forall>l. l \<noteq> c \<and> l \<noteq> p \<longrightarrow> L ! l = live s ! l)))"
proof (intro conjI impI)
  assume "\<not> isBlocked s"
  then show "abort s = Inr s" by (simp add: abort_def)
next
  assume a: "isBlocked s \<and> map_of (targetNodes s) (currentNode s) = Some c \<and>
    lparent (live s ! c) = Some p \<and> c < length (live s) \<and> p < length (live s) \<and> p \<noteq> c"
  then have "abort s = Inr (s\<lparr>live := remove c (live s)\<rparr>)" by (simp add: abort_def)
  with remove_other [of "live s" c p] a
  show "\<exists>L. abort s = Inr (s\<lparr>live := L\<rparr>) \<and> length L = length (live s) \<and>
       lparent (L ! c) = None \<and>
       kids (L ! p) = removeAll (LNode c) (kids (live s ! p)) \<and>
       (L ! p)\<lparr>kids := kids (live s ! p)\<rparr> = live s ! p \<and>
       (L ! c)\<lparr>lparent := Some p\<rparr> = live s ! c \<and>
       (\<forall>l. l \<noteq> c \<and> l \<noteq> p \<longrightarrow> L ! l = live s ! l)" by blast
qed

theorem abort_removes_blocking_node_only_witness:
  "(\<not> isBlocked fresh \<and> abort fresh = Inr fresh) \<and>
   (isBlocked blockedExample \<and>
    map_of (targetNodes blockedExample) (currentNode blockedExample) = Some 4 \<and>
    lparent (live blockedExample ! 4) = Some 0 \<and> 4 < length (live blockedExample) \<and>
    0 < length (live blockedExample) \<and> (0::nat) \<noteq> 4) \<and>
   (\<exists>L. abort blockedExample = Inr (blockedExample\<lparr>live := L\<rparr>) \<and>
       length L = length (live blockedExample) \<and>
       lparent (L ! 4) = None \<and>
       kids (L ! 0) = removeAll (LNode 4) (kids (live blockedExample ! 0)) \<and>
       (L ! 0)\<lparr>kids := kids (live blockedExample ! 0)\<rparr> = live blockedExample ! 0 \<and>
       (L ! 4)\<lparr>lparent := Some 0\<rparr> = live blockedExample ! 4 \<and>
       (\<forall>l. l \<noteq> 4 \<and> l \<noteq> 0 \<longrightarrow> L ! l = live blockedExample ! l))"
proof -
  have f: "\<not> isBlocked fresh" by code_simp
  have h: "isBlocked blockedExample \<and>
    map_of (targetNodes blockedExample) (currentNode blockedExample) = Some 4 \<and>
    lparent (live blockedExample ! 4) = Some 0 \<and> 4 < length (live blockedExample) \<and>
    0 < length (live blockedExample) \<and> (0::nat) \<noteq> 4" by code_simp
  from f abort_removes_blocking_node_only [of fresh 0 0]
  have a: "abort fresh = Inr fresh" by blast
  from h abort_removes_blocking_node_only [of blockedExample 4 0]
  have b: "\<exists>L. abort blockedExample = Inr (blockedExample\<lparr>live := L\<rparr>) \<and>
       length L = length (live blockedExample) \<and>
       lparent (L ! 4) = None \<and>
       kids (L ! 0) = removeAll (LNode 4) (kids (live blockedExample ! 0)) \<and>
       (L ! 0)\<lparr>kids := kids (live blockedExample ! 0)\<rparr> = live blockedExample ! 0 \<and>
       (L ! 4)\<lparr>lparent := Some 0\<rparr> = live blockedExample ! 4 \<and>
       (\<forall>l. l \<noteq> 4 \<and> l \<noteq> 0 \<longrightarrow> L ! l = live blockedExample ! l)" by blast
  from f a h b show ?thesis by blast
qed

lemma remove_self:
  "c < length L \<Longrightarrow> lparent (remove c L ! c) = None \<and> onload (remove c L ! c) = onload (L ! c)"
  by (auto simp: remove_def detach_def Let_def nth_upd split: option.splits)

text \<open>
  C10, as stated, fails: after \<^verbatim>\<open>abort()\<close> and the load event of the removed script, the
  session is no longer blocked, and the next \<^verbatim>\<open>write\<close> mirrors its paragraph (parse node 2
  gets the live node 2, inserted into the target).
\<close>

theorem write_after_aborted_load_mirrors:
  "map_sum id (\<lambda>s. (targetNodes s, kids (live s ! 0)))
     (run [Write [StartTag ''SCRIPT'' [(''src'', ''x'')], EndTag], Abort, Fire 1,
           Write [StartTag ''P'' []]] plain) =
   Inr ([(2, 2), (1, 1), (0, 0)], [LNode 2])"
  by code_simp

text \<open>
  C10, amended. On a blocked session whose blocking clone is \<open>c\<close>, \<^verbatim>\<open>abort()\<close> detaches \<open>c\<close>,
  and a load or error event on \<open>c\<close> afterwards clears the blocked flag and does nothing else:
  the resume callback finds the clone without a parent and does not enter the walk, so
  the event mirrors nothing.
\<close>

theorem load_after_abort_does_not_walk:
  assumes "isBlocked s" "map_of (targetNodes s) (currentNode s) = Some c"
    "c < length (live s)" "onload (live s ! c) = Some Resume"
  shows "\<exists>s1. abort s = Inr s1 \<and> s1 = s\<lparr>live := remove c (live s)\<rparr> \<and>
     fire c s1 = Inr (s1\<lparr>isBlocked := False\<rparr>)"
  using assms remove_self [of c "live s"]
  by (simp add: abort_def fire_def Let_def)

theorem load_after_abort_does_not_walk_witness:
  "(isBlocked blockedExample \<and>
    map_of (targetNodes blockedExample) (currentNode blockedExample) = Some 4 \<and>
    4 < length (live blockedExample) \<and> onload (live blockedExample ! 4) = Some Resume) \<and>
   (\<exists>s1. abort blockedExample = Inr s1 \<and>
      s1 = blockedExample\<lparr>live := remove 4 (live blockedExample)\<rparr> \<and>
      fire 4 s1 = Inr (s1\<lparr>isBlocked := False\<rparr>))"
proof -
  have h: "isBlocked blockedExample"
    "map_of (targetNodes blockedExample) (currentNode blockedExample) = Some 4"
    "4 < length (live blockedExample)" "onload (live blockedExample ! 4) = Some Resume"
    by code_simp+
  from h load_after_abort_does_not_walk [OF h] show ?thesis by blast
qed

section \<open>Script evaluation and the current script\<close>

text \<open>
  C8. With no \<^verbatim>\<open>currentScript\<close> descriptor on the document prototype, evaluating a classic
  inline script writes the assertion message to the console and goes on: the override is
  installed, the clone is appended, no listener restores anything, and \<^verbatim>\<open>close()\<close>
  returns a resolved promise.
\<close>

theorem missing_descriptor_is_logged_and_evaluation_continues:
  "map_sum id (\<lambda>s. (console s, currentScript s, unreframedBody s, completion s))
     (run [Write [StartTag ''SCRIPT'' [], Characters ''a'', EndTag], Close] noDescriptor) =
   Inr ([''document.currentScript is undefined!''], Some (Getter 1),
        [\<lparr>source = 1, scriptText = ''a'', saved = None\<rparr>], Resolved)"
  by code_simp

text \<open>
  C7. Two inline scripts written in one chunk are both evaluated before either clone's load
  event. The second evaluation saves the first one's override; after both load events, in
  the order of evaluation, the descriptor is the override of the first script and not the
  native one.
\<close>

theorem override_left_after_two_inline_scripts:
  "map_sum id (\<lambda>s. (currentScript s, unreframedBody s))
     (run [Write [StartTag ''SCRIPT'' [], Characters ''a'', EndTag,
                  StartTag ''SCRIPT'' [], Characters ''b'', EndTag],
           Close, EvalFire 0, EvalFire 1] plain) =
   Inr (Some (Getter 1),
        [\<lparr>source = 1, scriptText = ''a'', saved = Some Native\<rparr>,
         \<lparr>source = 3, scriptText = ''b'', saved = Some (Getter 1)\<rparr>])"
  by code_simp

section \<open>The lookahead cursor\<close>

text \<open>
  C5. The lookahead cursor is left on the text of an inline script; the script's text node
  is later moved into the live host; at the next block the lookahead starts from that
  node and walks the live document. The session is blocked at parse node 4, the image at
  parse node 5 is eligible, and the only preload link made is the one for the style sheet.
\<close>

theorem lookahead_from_moved_cursor_skips_parse_tree:
  "map_sum id (\<lambda>s. (isBlocked s, currentNode s, tagName (arena s ! 5),
       getPreloadLink (mediaMatches s) (arena s ! 5) \<noteq> None,
       map attrs (filter (\<lambda>n. onload n = Some RemoveSelf) (live s)), scanNode s))
     (run staleScan plain) =
   Inr (True, 4, ''IMG'', True,
        [[(''href'', ''y''), (''rel'', ''preload''), (''as'', ''style'')]], Some (LNode 5))"
  by code_simp

section \<open>Closing the session\<close>

lemma flush_pending:
  assumes "pendingText s = Some t" "inlineHostNode s = Some h" "h < length (live s)"
    "t < length (arena s)" "host (arena s ! t) = None"
  shows "host (arena (flushInline (pendingText s) s) ! t) = Some h \<and>
     data (arena (flushInline (pendingText s) s) ! t) = data (arena s ! t) \<and>
     kids (live (flushInline (pendingText s) s) ! h) = kids (live s ! h) @ [PNode t] \<and>
     unreframedBody (flushInline (pendingText s) s) =
       unreframedBody s @
       (if isScript (live s ! h)
        then [\<lparr>source = h,
               scriptText = concat (map (textOf (appendInlineTextIfNeeded (Some t) (Some h) s))
                  (kids (live s ! h) @ [PNode t])),
               saved = (if attr (live s ! h) ''type'' \<noteq> ''module'' \<and> attr (live s ! h) ''src'' = []
                        then currentScript s else None)\<rparr>]
        else [])"
  using assms
  by (simp add: flushInline_def appendInlineTextIfNeeded_def adopt_def detach_def appendChild_def
      insertBefore_def setParent_def evalScript_def assert_def isScript_def attr_def getAttribute_def Let_def)

lemma fire_completion:
  assumes "isBlocked s" "resolve s" "completion s = Pending" "fire l s = Inr s'"
  shows "(completion s' = Resolved) =
     (onload (live s ! l) = Some Resume \<and> lparent (live s ! l) \<noteq> None \<and> \<not> isBlocked s')"
proof (cases "onload (live s ! l)")
  case None
  with assms show ?thesis by (simp add: fire_def)
next
  case (Some hd)
  show ?thesis
  proof (cases hd)
    case RemoveSelf
    with Some assms show ?thesis by (auto simp: fire_def)
  next
    case Resume
    show ?thesis
    proof (cases "lparent (live s ! l)")
      case None
      with Some Resume assms show ?thesis by (auto simp: fire_def Let_def)
    next
      case (Some p)
      with \<open>onload (live s ! l) = Some hd\<close> Resume assms
      have "walk_main (s\<lparr>isBlocked := False\<rparr>) = Inr s'"
        by (simp add: fire_def Let_def walk_def)
      from walk_main_completion [OF _ _ this] assms Some \<open>onload (live s ! l) = Some hd\<close> Resume
      show ?thesis by simp
    qed
  qed
qed

lemma walk_main_drains:
  "sound s \<Longrightarrow> \<not> isBlocked s \<Longrightarrow> host (arena s ! currentNode s) = None \<Longrightarrow>
   walk_main s = Inr s' \<Longrightarrow> \<not> isBlocked s' \<Longrightarrow> Suc (currentNode s') = length (arena s')"
proof (induction s rule: walk_main.induct)
  case (1 s)
  note n = next_parse_sound [OF "1.prems"(1,3)]
  from "1.prems"(1) have c: "currentNode s < length (arena s)" by (simp add: sound_def)
  show ?case
  proof (cases "next_parse s (currentNode s)")
    case None
    with "1.prems" have "s' = finish s" by (simp add: walk_main.simps [of s])
    moreover from None n c have "Suc (currentNode s) = length (arena s)"
      by (simp split: if_splits)
    ultimately show ?thesis by (simp add: finish_def)
  next
    case (Some j)
    with n have j: "j = Suc (currentNode s)" "j < length (arena s)" by (simp_all split: if_splits)
    from Some "1.prems" obtain s1 where m: "mirror j s = Inr s1"
      and r: "(if isBlocked s1 then lookahead s1 else walk_main s1) = Inr s'"
      by (auto simp: walk_main.simps [of s] split: sum.splits)
    from sound_mirror [OF "1.prems"(1,2) j m] have s1: "sound s1" .
    show ?thesis
    proof (cases "isBlocked s1")
      case True
      with r have "lookahead s1 = Inr s'" by simp
      from lookahead_keeps [OF this] True "1.prems"(5) show ?thesis by simp
    next
      case b: False
      with r have w: "walk_main s1 = Inr s'" by simp
      from "1.prems"(1) j have hj: "host (arena s ! j) = None" by (simp add: sound_def)
      have "host (arena s1 ! j) = None"
        using mirror_arena [OF m] "1.prems"(1) j hj by (auto simp: nth_upd sound_def)
      with mirror_keeps [OF m] have h1: "host (arena s1 ! currentNode s1) = None" by simp
      from "1.prems"(3) have h: "\<not> host (arena s ! currentNode s) \<noteq> None" by simp
      from "1.IH" [OF h Some m b s1 b h1 w "1.prems"(5)] show ?thesis .
    qed
  qed
qed

lemma resolved_after_drain:
  assumes r: "run es (writableDOM ttag nb na mm cs) = Inr s" and b: "isBlocked s"
    and f: "fire l (close s) = Inr s'" and c: "completion s' = Resolved"
  shows "Suc (currentNode s') = length (arena s') \<and>
    map fst (targetNodes s') = rev [0 ..< length (arena s')]"
proof -
  from sound_run [OF sound_init r] have so: "sound s" .
  from held_run [OF sound_init held_init r] have he: "held s" .
  from so b have p: "pendingText s = None" "blocks s (currentNode s)" "currentNode s < length (arena s)"
    by (simp_all add: sound_def)
  from he p have h0: "host (arena s ! currentNode s) = None"
    by (auto simp: held_def blocks_def)
  from b have cl: "close s = (flushInline (pendingText s) s)\<lparr>resolve := True, completion := Pending\<rparr>"
    by (simp add: close_def Let_def flushInline_keeps)
  then have k: "isBlocked (close s)" "resolve (close s)" "completion (close s) = Pending"
    "arena (close s) = arena s" "currentNode (close s) = currentNode s"
    using b p(1) by (simp_all add: flushInline_keeps arena_flushInline)
  from fire_completion [OF k(1,2,3) f] c
  have e: "onload (live (close s) ! l) = Some Resume" "lparent (live (close s) ! l) \<noteq> None"
    "\<not> isBlocked s'" by simp_all
  let ?u = "(close s)\<lparr>isBlocked := False\<rparr>"
  from f e have w: "walk_main ?u = Inr s'" by (simp add: fire_def Let_def walk_def)
  from sound_close [OF so] have su: "sound ?u" by (simp add: sound_def blocks_def)
  from k h0 have hu: "host (arena ?u ! currentNode ?u) = None" by simp
  from walk_main_drains [OF su _ hu w e(3)] have d: "Suc (currentNode s') = length (arena s')" by simp
  from sound_fire [OF sound_close [OF so] f] have "sound s'" .
  then have "map fst (targetNodes s') = rev [0 ..< Suc (currentNode s')]" by (simp add: sound_def)
  with d show ?thesis by simp
qed


text \<open>
  C6. \<^verbatim>\<open>close()\<close> appends the pending text \<open>t\<close> to the inline host \<open>h\<close> (the text node keeps
  its whole data and becomes the host's last child) and, if the host is a script,
  evaluates it with that text; a host that is not a script is not evaluated. The promise
  is resolved at once when the session is not blocked. When it is blocked the promise is
  pending, it stays pending through \<^verbatim>\<open>write\<close> and \<^verbatim>\<open>abort\<close>, and a load or error event
  resolves it exactly when the event is the one of a blocking clone that is still in the
  live tree and the resumed walk reaches the end of the parse tree without blocking
  again. In a session, a promise resolved by such an event finds the walker on the last
  node of the parse document and every parse node, from the root to the last, entered in
  the shadow mapping: the walk has mirrored all the nodes that were waiting.
\<close>

theorem close_flushes_and_signals:
  "(pendingText s = Some t \<and> inlineHostNode s = Some h \<and> h < length (live s) \<and>
      t < length (arena s) \<and> host (arena s ! t) = None \<longrightarrow>
      host (arena (close s) ! t) = Some h \<and>
      data (arena (close s) ! t) = data (arena s ! t) \<and>
      kids (live (close s) ! h) = kids (live s ! h) @ [PNode t] \<and>
      (isScript (live s ! h) \<longrightarrow>
         (\<exists>e. unreframedBody (close s) = unreframedBody s @ [e] \<and> source e = h \<and>
            scriptText e = concat (map (textOf (close s)) (kids (live (close s) ! h))))) \<and>
      (\<not> isScript (live s ! h) \<longrightarrow> unreframedBody (close s) = unreframedBody s)) \<and>
   (\<not> isBlocked s \<longrightarrow> completion (close s) = Resolved) \<and>
   (isBlocked s \<longrightarrow>
      completion (close s) = Pending \<and> isBlocked (close s) \<and>
      (\<forall>chunk s'. writeChunk chunk (close s) = Inr s' \<longrightarrow> completion s' = Pending \<and> isBlocked s') \<and>
      (\<forall>s'. abort (close s) = Inr s' \<longrightarrow> completion s' = Pending \<and> isBlocked s') \<and>
      (\<forall>l s'. fire l (close s) = Inr s' \<longrightarrow>
         (completion s' = Resolved) =
         (onload (live (close s) ! l) = Some Resume \<and> lparent (live (close s) ! l) \<noteq> None \<and>
          \<not> isBlocked s'))) \<and>
   (\<forall>es ttag nb na mm cs l s'.
      run es (writableDOM ttag nb na mm cs) = Inr s \<and> isBlocked s \<and>
      fire l (close s) = Inr s' \<and> completion s' = Resolved \<longrightarrow>
      Suc (currentNode s') = length (arena s') \<and>
      map fst (targetNodes s') = rev [0 ..< length (arena s')])"
proof (intro conjI impI)
  assume a: "pendingText s = Some t \<and> inlineHostNode s = Some h \<and> h < length (live s) \<and>
      t < length (arena s) \<and> host (arena s ! t) = None"
  have c: "arena (close s) = arena (flushInline (pendingText s) s)"
    "live (close s) = live (flushInline (pendingText s) s)"
    "unreframedBody (close s) = unreframedBody (flushInline (pendingText s) s)"
    by (simp_all add: close_def Let_def)
  from a flush_pending [of s t h]
  have f: "host (arena (flushInline (pendingText s) s) ! t) = Some h"
     "data (arena (flushInline (pendingText s) s) ! t) = data (arena s ! t)"
     "kids (live (flushInline (pendingText s) s) ! h) = kids (live s ! h) @ [PNode t]"
     "unreframedBody (flushInline (pendingText s) s) =
       unreframedBody s @
       (if isScript (live s ! h)
        then [\<lparr>source = h,
               scriptText = concat (map (textOf (appendInlineTextIfNeeded (Some t) (Some h) s))
                  (kids (live s ! h) @ [PNode t])),
               saved = (if attr (live s ! h) ''type'' \<noteq> ''module'' \<and> attr (live s ! h) ''src'' = []
                        then currentScript s else None)\<rparr>]
        else [])" by simp_all
  from f c show "host (arena (close s) ! t) = Some h" by simp
  from f c show "data (arena (close s) ! t) = data (arena s ! t)" by simp
  from f c show "kids (live (close s) ! h) = kids (live s ! h) @ [PNode t]" by simp
  have "arena (appendInlineTextIfNeeded (Some t) (Some h) s) = arena (close s) \<and>
        live (appendInlineTextIfNeeded (Some t) (Some h) s) = live (close s)"
    using a by (simp add: c flushInline_def Let_def evalScript_keeps append_keeps)
  then have tx: "textOf (appendInlineTextIfNeeded (Some t) (Some h) s) = textOf (close s)"
    by (intro textOf_cong) simp_all
  { assume "isScript (live s ! h)"
    with f c tx show "\<exists>e. unreframedBody (close s) = unreframedBody s @ [e] \<and> source e = h \<and>
            scriptText e = concat (map (textOf (close s)) (kids (live (close s) ! h)))"
      by simp }
  { assume "\<not> isScript (live s ! h)"
    with f c show "unreframedBody (close s) = unreframedBody s" by simp }
next
  assume "\<not> isBlocked s"
  then show "completion (close s) = Resolved" by (simp add: close_def Let_def flushInline_keeps)
next
  assume b: "isBlocked s"
  then have c: "close s = (flushInline (pendingText s) s)\<lparr>resolve := True, completion := Pending\<rparr>"
    by (simp add: close_def Let_def flushInline_keeps)
  then have k: "isBlocked (close s)" "resolve (close s)" "completion (close s) = Pending"
    using b by (simp_all add: flushInline_keeps)
  from k show "completion (close s) = Pending" by simp
  from k show "isBlocked (close s)" by simp
  from k write_blocked_keeps
  show "\<forall>chunk s'. writeChunk chunk (close s) = Inr s' \<longrightarrow> completion s' = Pending \<and> isBlocked s'"
    by metis
  from k show "\<forall>s'. abort (close s) = Inr s' \<longrightarrow> completion s' = Pending \<and> isBlocked s'"
    by (auto simp: abort_def split: option.splits)
  from k fire_completion
  show "\<forall>l s'. fire l (close s) = Inr s' \<longrightarrow>
         (completion s' = Resolved) =
         (onload (live (close s) ! l) = Some Resume \<and> lparent (live (close s) ! l) \<noteq> None \<and>
          \<not> isBlocked s')" by blast
next
  show "\<forall>es ttag nb na mm cs l s'.
      run es (writableDOM ttag nb na mm cs) = Inr s \<and> isBlocked s \<and>
      fire l (close s) = Inr s' \<and> completion s' = Resolved \<longrightarrow>
      Suc (currentNode s') = length (arena s') \<and>
      map fst (targetNodes s') = rev [0 ..< length (arena s')]"
    using resolved_after_drain [of _ _ _ _ _ _ s] by blast
qed


theorem close_flushes_and_signals_witness:
  "(pendingText inlineExample = Some 2 \<and> inlineHostNode inlineExample = Some 1 \<and>
    1 < length (live inlineExample) \<and> 2 < length (arena inlineExample) \<and>
    host (arena inlineExample ! 2) = None \<and> isScript (live inlineExample ! 1) \<and>
    \<not> isBlocked inlineExample \<and> isBlocked blockedMidway \<and>
    run [Write [StartTag ''P'' [], EndTag, StartTag ''SCRIPT'' [(''src'', ''x'')], EndTag,
                StartTag ''P'' [], Characters ''after'', EndTag]]
      (writableDOM ''BODY'' 1 1 [] (Some Native)) = Inr blockedMidway \<and>
    currentNode blockedMidway = 2 \<and> length (arena blockedMidway) = 5 \<and>
    fire 4 (close blockedMidway) = Inr (session [Close, Fire 4] blockedMidway) \<and>
    onload (live (close blockedMidway) ! 4) = Some Resume \<and>
    lparent (live (close blockedMidway) ! 4) \<noteq> None \<and>
    \<not> isBlocked (session [Close, Fire 4] blockedMidway)) \<and>
   (host (arena (close inlineExample) ! 2) = Some 1 \<and>
    kids (live (close inlineExample) ! 1) = kids (live inlineExample ! 1) @ [PNode 2] \<and>
    (\<exists>e. unreframedBody (close inlineExample) = unreframedBody inlineExample @ [e] \<and>
       source e = 1 \<and>
       scriptText e =
         concat (map (textOf (close inlineExample)) (kids (live (close inlineExample) ! 1)))) \<and>
    completion (close inlineExample) = Resolved \<and>
    completion (close blockedMidway) = Pending \<and>
    completion (session [Close, Fire 4] blockedMidway) = Resolved \<and>
    currentNode (session [Close, Fire 4] blockedMidway) = 4 \<and>
    map fst (targetNodes (session [Close, Fire 4] blockedMidway)) = [4, 3, 2, 1, 0])"
proof -
  have h: "pendingText inlineExample = Some 2 \<and> inlineHostNode inlineExample = Some 1 \<and>
    1 < length (live inlineExample) \<and> 2 < length (arena inlineExample) \<and>
    host (arena inlineExample ! 2) = None \<and> isScript (live inlineExample ! 1) \<and>
    \<not> isBlocked inlineExample \<and> isBlocked blockedMidway \<and>
    run [Write [StartTag ''P'' [], EndTag, StartTag ''SCRIPT'' [(''src'', ''x'')], EndTag,
                StartTag ''P'' [], Characters ''after'', EndTag]]
      (writableDOM ''BODY'' 1 1 [] (Some Native)) = Inr blockedMidway \<and>
    currentNode blockedMidway = 2 \<and> length (arena blockedMidway) = 5 \<and>
    fire 4 (close blockedMidway) = Inr (session [Close, Fire 4] blockedMidway) \<and>
    onload (live (close blockedMidway) ! 4) = Some Resume \<and>
    lparent (live (close blockedMidway) ! 4) \<noteq> None \<and>
    \<not> isBlocked (session [Close, Fire 4] blockedMidway)"
    by code_simp
  have l: "length (arena (session [Close, Fire 4] blockedMidway)) = 5" by code_simp
  have u: "rev [0 ..< 5] = [4, 3, 2, 1, 0::nat]" by (simp add: upt_rec)
  from h close_flushes_and_signals [of inlineExample 2 1]
  have a: "host (arena (close inlineExample) ! 2) = Some 1 \<and>
    kids (live (close inlineExample) ! 1) = kids (live inlineExample ! 1) @ [PNode 2] \<and>
    (\<exists>e. unreframedBody (close inlineExample) = unreframedBody inlineExample @ [e] \<and>
       source e = 1 \<and>
       scriptText e =
         concat (map (textOf (close inlineExample)) (kids (live (close inlineExample) ! 1)))) \<and>
    completion (close inlineExample) = Resolved"
    by blast
  from h close_flushes_and_signals [of blockedMidway 0 0]
  have b: "completion (close blockedMidway) = Pending \<and>
    completion (session [Close, Fire 4] blockedMidway) = Resolved"
    by blast
  from h b close_flushes_and_signals [of blockedMidway 0 0]
  have "Suc (currentNode (session [Close, Fire 4] blockedMidway)) =
      length (arena (session [Close, Fire 4] blockedMidway)) \<and>
    map fst (targetNodes (session [Close, Fire 4] blockedMidway)) =
      rev [0 ..< length (arena (session [Close, Fire 4] blockedMidway))]"
    by blast
  with l u have c: "currentNode (session [Close, Fire 4] blockedMidway) = 4 \<and>
    map fst (targetNodes (session [Close, Fire 4] blockedMidway)) = [4, 3, 2, 1, 0]"
    by simp
  from h a b c show ?thesis by blast
qed

section \<open>Writing while blocked\<close>

text \<open>
  \<open>onlyHints L L'\<close>: the live document \<open>L'\<close> is \<open>L\<close> with preload links added. Every node
  of \<open>L\<close> but the target is unchanged; the target differs in its child list only, whose
  old children are all there in their old order; every new node is a link with the
  self-removing handler, a child of the target.
\<close>

definition isHint :: "lnode \<Rightarrow> bool" where
  "isHint n = (nodeType n = ELEMENT_NODE \<and> tagName n = ''LINK'' \<and> onload n = Some RemoveSelf \<and>
     lparent n = Some 0 \<and> kids n = [])"

definition keptKids :: "nat \<Rightarrow> nref list \<Rightarrow> nref list" where
  "keptKids n ks = filter (\<lambda>x. case x of LNode k \<Rightarrow> k < n | PNode t \<Rightarrow> True) ks"

definition onlyHints :: "lnode list \<Rightarrow> lnode list \<Rightarrow> bool" where
  "onlyHints L L' =
     (length L \<le> length L' \<and>
      (\<forall>l. 0 < l \<and> l < length L \<longrightarrow> L' ! l = L ! l) \<and>
      (L' ! 0)\<lparr>kids := kids (L ! 0)\<rparr> = L ! 0 \<and>
      keptKids (length L) (kids (L' ! 0)) = keptKids (length L) (kids (L ! 0)) \<and>
      (\<forall>l. length L \<le> l \<and> l < length L' \<longrightarrow> isHint (L' ! l) \<and> LNode l \<in> set (kids (L' ! 0))))"

lemma onlyHints_refl: "onlyHints L L"
  by (auto simp: onlyHints_def)

lemma keptKids_keptKids: "n \<le> m \<Longrightarrow> keptKids n (keptKids m ks) = keptKids n ks"
  by (induction ks) (auto simp: keptKids_def split: nref.splits)

lemma keptKids_mem: "l < n \<Longrightarrow> (LNode l \<in> set (keptKids n ks)) = (LNode l \<in> set ks)"
  by (auto simp: keptKids_def)

lemma onlyHints_trans:
  assumes "L \<noteq> []" "onlyHints L L'" "onlyHints L' L''"
  shows "onlyHints L L''"
proof -
  from assms have len: "0 < length L" "length L \<le> length L'" "length L' \<le> length L''"
    by (simp_all add: onlyHints_def)
  have 1: "\<And>l. 0 < l \<and> l < length L \<Longrightarrow> L'' ! l = L ! l"
    using assms len by (simp add: onlyHints_def)
  from assms have a: "(L' ! 0)\<lparr>kids := kids (L ! 0)\<rparr> = L ! 0"
    and b: "(L'' ! 0)\<lparr>kids := kids (L' ! 0)\<rparr> = L' ! 0" by (simp_all add: onlyHints_def)
  have "(L'' ! 0)\<lparr>kids := kids (L ! 0)\<rparr> =
      ((L'' ! 0)\<lparr>kids := kids (L' ! 0)\<rparr>)\<lparr>kids := kids (L ! 0)\<rparr>" by simp
  with a b have 2: "(L'' ! 0)\<lparr>kids := kids (L ! 0)\<rparr> = L ! 0" by simp
  from assms have k: "keptKids (length L) (kids (L' ! 0)) = keptKids (length L) (kids (L ! 0))"
    "keptKids (length L') (kids (L'' ! 0)) = keptKids (length L') (kids (L' ! 0))"
    by (simp_all add: onlyHints_def)
  have "keptKids (length L) (kids (L'' ! 0)) =
      keptKids (length L) (keptKids (length L') (kids (L'' ! 0)))"
    using len by (simp add: keptKids_keptKids)
  with k len have 3: "keptKids (length L) (kids (L'' ! 0)) = keptKids (length L) (kids (L ! 0))"
    by (simp add: keptKids_keptKids)
  have 4: "\<And>l. length L \<le> l \<and> l < length L'' \<Longrightarrow>
      isHint (L'' ! l) \<and> LNode l \<in> set (kids (L'' ! 0))"
  proof -
    fix l assume i: "length L \<le> l \<and> l < length L''"
    show "isHint (L'' ! l) \<and> LNode l \<in> set (kids (L'' ! 0))"
    proof (cases "l < length L'")
      case True
      with i assms(2) have h: "isHint (L' ! l)" "LNode l \<in> set (kids (L' ! 0))"
        by (simp_all add: onlyHints_def)
      from i len have "0 < l" by (cases L) auto
      with True assms(3) have e: "L'' ! l = L' ! l" by (simp add: onlyHints_def)
      from h(2) True have "LNode l \<in> set (keptKids (length L') (kids (L' ! 0)))"
        by (simp add: keptKids_mem)
      with k(2) True have "LNode l \<in> set (kids (L'' ! 0))"
        by (metis keptKids_mem)
      with h e show ?thesis by simp
    next
      case False
      with i assms(3) show ?thesis by (simp add: onlyHints_def)
    qed
  qed
  from len 1 2 3 4 show ?thesis by (simp add: onlyHints_def)
qed

lemma keptKids_insert:
  "keptKids n (takeWhile P ks @ LNode n # dropWhile P ks) = keptKids n ks"
proof -
  have "keptKids n (takeWhile P ks @ LNode n # dropWhile P ks) =
      keptKids n (takeWhile P ks) @ keptKids n (dropWhile P ks)" by (simp add: keptKids_def)
  also have "\<dots> = keptKids n (takeWhile P ks @ dropWhile P ks)"
    unfolding keptKids_def by (rule filter_append [symmetric])
  finally show ?thesis by simp
qed

lemma keptKids_snoc: "keptKids n (ks @ [LNode n]) = keptKids n ks"
  by (simp add: keptKids_def)

lemma onlyHints_preload:
  assumes "live s \<noteq> []"
  shows "onlyHints (live s) (live (preload n s))"
proof (cases "getPreloadLink (mediaMatches s) n")
  case None
  then show ?thesis by (simp add: preload_def onlyHints_refl)
next
  case (Some a)
  from assms have l: "0 < length (live s)" by simp
  with Some show ?thesis
    by (auto simp: preload_def onlyHints_def insertBefore_def setParent_def nth_upd nth_append
        isHint_def keptKids_insert keptKids_snoc split: option.splits)
qed


lemma live_preload_nonempty: "live s \<noteq> [] \<Longrightarrow> live (preload n s) \<noteq> []"
  using onlyHints_preload [of s n] by (auto simp: onlyHints_def)

lemma onlyHints_scan_parse:
  "live s \<noteq> [] \<Longrightarrow> onlyHints (live s) (live (scan_parse i s))"
proof (induction i s rule: scan_parse.induct)
  case (1 i s)
  show ?case
  proof (cases "next_parse s i")
    case None
    then show ?thesis by (simp add: scan_parse.simps [of i s] onlyHints_refl)
  next
    case (Some j)
    let ?s0 = "s\<lparr>scanNode := Some (PNode j)\<rparr>"
    let ?s1 = "preload (info s (PNode j)) ?s0"
    have e: "scan_parse i s = scan_parse j ?s1" using Some by (simp add: scan_parse.simps [of i s])
    from "1.prems" have n: "live ?s0 \<noteq> []" by simp
    from onlyHints_preload [OF n] have a: "onlyHints (live s) (live ?s1)" by simp
    from live_preload_nonempty [OF n] have "live ?s1 \<noteq> []" .
    from "1.IH" [OF Some this] have "onlyHints (live ?s1) (live (scan_parse j ?s1))" .
    from onlyHints_trans [OF "1.prems" a this] show ?thesis unfolding e .
  qed
qed

lemma onlyHints_scan_live:
  "live s \<noteq> [] \<Longrightarrow> scan_live k r s = Inr s' \<Longrightarrow> onlyHints (live s) (live s')"
proof (induction k r s rule: scan_live.induct)
  case (1 r s)
  then show ?case by (simp add: scan_live.simps)
next
  case (2 k r s)
  show ?case
  proof (cases "live_next s r")
    case None
    with 2 show ?thesis by (simp add: scan_live.simps onlyHints_refl)
  next
    case (Some x)
    let ?s0 = "s\<lparr>scanNode := Some x\<rparr>"
    let ?s1 = "preload (info s x) ?s0"
    from "2.prems" Some have e: "scan_live k x ?s1 = Inr s'" by (simp add: scan_live.simps)
    from "2.prems" have n: "live ?s0 \<noteq> []" by simp
    from onlyHints_preload [OF n] have a: "onlyHints (live s) (live ?s1)" by simp
    from live_preload_nonempty [OF n] have "live ?s1 \<noteq> []" .
    from "2.IH" [OF Some this e] have "onlyHints (live ?s1) (live s')" .
    from onlyHints_trans [OF "2.prems"(1) a this] show ?thesis .
  qed
qed

lemma onlyHints_lookahead:
  assumes "live s \<noteq> []" "lookahead s = Inr s'"
  shows "onlyHints (live s) (live s')"
proof (cases "inParse s (scanStart s)")
  case True
  with assms have "s' = scan_parse (idx (scanStart s)) s" by (simp add: lookahead_def)
  with assms(1) show ?thesis by (simp add: onlyHints_scan_parse)
next
  case False
  with assms have "scan_live (2 * length (live s) + 2) (scanStart s) s = Inr s'"
    by (simp add: lookahead_def)
  from onlyHints_scan_live [OF assms(1) this] show ?thesis .
qed


lemma mirror_length_live:
  assumes "mirror j s = Inr s'"
  shows "length (live s') = Suc (length (live s))"
  using assms
proof (cases rule: mirror_cases)
  case (1 p)
  then show ?thesis by (simp add: visit_def)
next
  case (2 p)
  then show ?thesis by (simp add: length_live_place length_live_flushInline) (simp add: visit_def)
qed

lemma lookahead_nonempty: "live s \<noteq> [] \<Longrightarrow> lookahead s = Inr s' \<Longrightarrow> live s' \<noteq> []"
  using onlyHints_lookahead [of s s'] by (auto simp: onlyHints_def)

lemma walk_main_nonempty:
  "live s \<noteq> [] \<Longrightarrow> walk_main s = Inr s' \<Longrightarrow> live s' \<noteq> []"
proof (induction s rule: walk_main.induct)
  case (1 s)
  show ?case
  proof (cases "host (arena s ! currentNode s) \<noteq> None")
    case True
    with "1.prems" have "s' = finish s"
      by (auto simp: walk_main.simps [of s] split: option.splits)
    with "1.prems" show ?thesis by (simp add: finish_def)
  next
    case False
    show ?thesis
    proof (cases "next_parse s (currentNode s)")
      case None
      with False "1.prems" have "s' = finish s" by (simp add: walk_main.simps [of s])
      with "1.prems" show ?thesis by (simp add: finish_def)
    next
      case (Some j)
      with False "1.prems" obtain s1 where m: "mirror j s = Inr s1"
        and r: "(if isBlocked s1 then lookahead s1 else walk_main s1) = Inr s'"
        by (auto simp: walk_main.simps [of s] split: sum.splits)
      from mirror_length_live [OF m] have n: "live s1 \<noteq> []" by auto
      show ?thesis
      proof (cases "isBlocked s1")
        case True
        with r n lookahead_nonempty [of s1 s'] show ?thesis by auto
      next
        case b: False
        with r have w: "walk_main s1 = Inr s'" by simp
        from "1.IH" [OF False Some m b n w] show ?thesis .
      qed
    qed
  qed
qed

lemma walk_nonempty: "live s \<noteq> [] \<Longrightarrow> walk s = Inr s' \<Longrightarrow> live s' \<noteq> []"
  using lookahead_nonempty [of s s'] walk_main_nonempty [of s s']
  by (auto simp: walk_def split: if_splits)

lemma syncText_length: "syncText s = Inr s' \<Longrightarrow> length (live s') = length (live s)"
  by (auto simp: syncText_def split: option.splits if_splits)

lemma length_remove: "length (remove l L) = length L"
  by (simp add: remove_def detach_def Let_def split: option.splits)

lemma remove_nonempty: "L \<noteq> [] \<Longrightarrow> remove l L \<noteq> []"
  using length_remove [of l L] by (cases L) auto

lemma step_nonempty:
  assumes "live s \<noteq> []" "step e s = Inr s'"
  shows "live s' \<noteq> []"
proof (cases e)
  case (Write c)
  with assms obtain s1 where y: "syncText (doc_write c s) = Inr s1" and w: "walk s1 = Inr s'"
    by (auto simp: writeChunk_def split: sum.splits)
  from syncText_length [OF y] assms(1) have "live s1 \<noteq> []" by (auto simp: doc_write_keeps)
  from walk_nonempty [OF this w] show ?thesis .
next
  case Abort
  with assms show ?thesis
    by (auto simp: abort_def remove_nonempty split: if_splits option.splits)
next
  case Close
  with assms length_live_flushInline [of "pendingText s" s] show ?thesis
    by (auto simp: close_def Let_def split: if_splits)
next
  case (Fire l)
  with assms(2) have "s' = s \<or> s' = s\<lparr>live := remove l (live s)\<rparr> \<or> s' = s\<lparr>isBlocked := False\<rparr>
      \<or> walk (s\<lparr>isBlocked := False\<rparr>) = Inr s'"
    by (auto simp: fire_def Let_def split: option.splits handler.splits if_splits)
  with assms(1) remove_nonempty [of "live s" l] walk_nonempty [of "s\<lparr>isBlocked := False\<rparr>" s']
  show ?thesis by auto
next
  case (EvalFire i)
  with assms show ?thesis by (auto simp: evalDone_def split: option.splits if_splits)
qed

lemma run_nonempty: "live s \<noteq> [] \<Longrightarrow> run es s = Inr s' \<Longrightarrow> live s' \<noteq> []"
proof (induction es arbitrary: s)
  case Nil
  then show ?case by simp
next
  case (Cons e es)
  from Cons.prems(2) obtain s1 where "step e s = Inr s1" "run es s1 = Inr s'"
    by (auto split: sum.splits)
  with Cons.IH step_nonempty [OF Cons.prems(1)] show ?case by blast
qed

lemma init_nonempty: "live (writableDOM ttag nb na mm cs) \<noteq> []"
  by (simp add: writableDOM_def)

text \<open>
  C9. In every state a session can reach, a \<^verbatim>\<open>write\<close> made while blocked leaves the blocked
  flag, the shadow mapping, the walker's position, the pending text, the inline host and
  the evaluated scripts as they are; the parse document is the one the parser produced;
  and the live document only gains preload links (\<open>onlyHints\<close>): no node is mirrored,
  inserted or modified.
\<close>

theorem blocked_write_only_preloads:
  assumes "run es (writableDOM ttag nb na mm cs) = Inr s" "isBlocked s"
    "writeChunk chunk s = Inr s'"
  shows "isBlocked s' \<and> targetNodes s' = targetNodes s \<and> currentNode s' = currentNode s \<and>
     pendingText s' = pendingText s \<and> inlineHostNode s' = inlineHostNode s \<and>
     unreframedBody s' = unreframedBody s \<and> currentScript s' = currentScript s \<and>
     arena s' = arena (doc_write chunk s) \<and> onlyHints (live s) (live s')"
proof -
  from sound_run [OF sound_init assms(1)] assms(2) have p: "pendingText s = None"
    by (simp add: sound_def)
  from run_nonempty [OF init_nonempty assms(1)] have n: "live s \<noteq> []" .
  from p have "syncText (doc_write chunk s) = Inr (doc_write chunk s)"
    by (simp add: syncText_def doc_write_keeps)
  with assms(2,3) have l: "lookahead (doc_write chunk s) = Inr s'"
    by (simp add: writeChunk_def walk_def doc_write_keeps)
  from n have "live (doc_write chunk s) \<noteq> []" by (simp add: doc_write_keeps)
  from onlyHints_lookahead [OF this l] lookahead_keeps [OF l] assms(2) show ?thesis
    by (simp add: doc_write_keeps)
qed

theorem blocked_write_only_preloads_witness:
  "(run [Write [StartTag ''P'' [], EndTag, StartTag ''SCRIPT'' [(''src'', ''x'')], EndTag]]
      (writableDOM ''BODY'' 1 1 [] (Some Native)) = Inr blockedExample \<and>
    isBlocked blockedExample \<and>
    writeChunk [StartTag ''IMG'' [(''src'', ''b'')], StartTag ''P'' []] blockedExample =
      Inr (session [Write [StartTag ''IMG'' [(''src'', ''b'')], StartTag ''P'' []]] blockedExample)) \<and>
   (targetNodes (session [Write [StartTag ''IMG'' [(''src'', ''b'')], StartTag ''P'' []]] blockedExample) =
      targetNodes blockedExample \<and>
    onlyHints (live blockedExample)
      (live (session [Write [StartTag ''IMG'' [(''src'', ''b'')], StartTag ''P'' []]] blockedExample)))"
proof -
  have h: "run [Write [StartTag ''P'' [], EndTag, StartTag ''SCRIPT'' [(''src'', ''x'')], EndTag]]
      (writableDOM ''BODY'' 1 1 [] (Some Native)) = Inr blockedExample"
    "isBlocked blockedExample"
    "writeChunk [StartTag ''IMG'' [(''src'', ''b'')], StartTag ''P'' []] blockedExample =
      Inr (session [Write [StartTag ''IMG'' [(''src'', ''b'')], StartTag ''P'' []]] blockedExample)"
    by code_simp+
  from h blocked_write_only_preloads [OF h] show ?thesis by blast
qed

section \<open>Blocking scripts and the order of mirroring\<close>



lemma cloneOf_onload: "blocks s j \<Longrightarrow> onload (cloneOf s j) = Some Resume"
  by (simp add: cloneOf_def)








section \<open>Text arriving in pieces\<close>


























end
